theory Spec2Isabelle
  imports Complex_Main "HOL-Library.AList" "HOL-Library.Multiset"
begin

section \<open>The coin-flip demonstration: model of \<open>coin_flip.py\<close>\<close>

subsection \<open>Errors\<close>

text \<open>
  The exceptions the program can raise, as values. \<open>FileExists\<close> is the
  \<open>Exception\<close> raised by \<open>main\<close> when the destination is already a file;
  \<open>ZeroDivisionError\<close> comes from \<open>num_trials // num_workers\<close>;
  \<open>ValueError\<close> from \<open>max\<close> of an empty key view;
  \<open>IsADirectoryError\<close> from \<open>open\<close> on a directory.
  \<open>BlocksForever\<close> stands for the collector loop waiting on a queue that never
  receives enough results.
\<close>

datatype error =
    FileExists string
  | ZeroDivisionError
  | ValueError
  | IsADirectoryError
  | BlocksForever

subsection \<open>Batch splitter\<close>

text \<open>
  \<open>yield_worker_batch_sizes\<close> is a generator; the model returns the list of the
  values it yields. Python's \<open>//\<close> on integers is floor division, which is
  \<open>div\<close> on \<open>int\<close>, and it raises when the divisor is zero (HOL would return
  0). \<open>range(num_workers)\<close> is \<open>[0..num_workers - 1]\<close>, empty when
  \<open>num_workers \<le> 0\<close>; \<open>int(i < remainder)\<close> is 1 or 0.
\<close>

definition yield_worker_batch_sizes :: "int \<Rightarrow> int \<Rightarrow> error + int list" where
  "yield_worker_batch_sizes num_trials num_workers =
     (if num_workers = 0 then Inl ZeroDivisionError
      else
        let batch_size = num_trials div num_workers;
            remainder = num_trials - batch_size * num_workers
        in Inr (map (\<lambda>i. batch_size + (if i < remainder then 1 else 0))
                 [0..num_workers - 1]))"

subsection \<open>Coin flips\<close>

text \<open>
  \<open>flip_coin\<close> returns the string \<open>'H'\<close> or \<open>'T'\<close>; the two outcomes are the
  constructors \<open>Heads\<close> and \<open>Tails\<close>. The value of \<open>random.random()\<close> is the
  argument: a draw from \<open>[0, 1)\<close>, a rational number as every float is.
\<close>

datatype coin = Heads | Tails

definition flip_coin :: "rat \<Rightarrow> coin" where
  "flip_coin draw = (if draw \<ge> 1 / 2 then Heads else Tails)"

subsection \<open>Histograms\<close>

text \<open>
  A trial result is a Python dictionary \<open>{chain_length: [num_heads, num_tails]}\<close>.
  Dictionaries keep insertion order and have distinct keys: the model is an
  association list, read with \<open>map_of\<close> and written with \<open>AList.update\<close>, which
  replaces the value of a key in place and appends a new key at the end, as
  \<open>d[k] = v\<close> does. The two-element list is a pair.
\<close>

type_synonym chain = "int \<times> int"

type_synonym histogram = "(int \<times> chain) list"

subsection \<open>Trial runner\<close>

text \<open>
  One iteration of the loop of \<open>perform_trials\<close>, on the state
  \<open>(head_chains, counter)\<close>. In the source \<open>chain\<close> is the very list stored
  under \<open>counter\<close> (looked up, or created as \<open>[0, 0]\<close> and stored), so the
  increment of \<open>chain[0]\<close> or \<open>chain[1]\<close> is an update of that entry.
\<close>

fun trial_step :: "histogram \<times> int \<Rightarrow> coin \<Rightarrow> histogram \<times> int" where
  "trial_step (head_chains, counter) flip =
     (let chain = (case map_of head_chains counter of Some c \<Rightarrow> c | None \<Rightarrow> (0, 0));
          head_chains1 = (case map_of head_chains counter of
                            Some c \<Rightarrow> head_chains
                          | None \<Rightarrow> AList.update counter chain head_chains)
      in if flip = Heads
         then (AList.update counter (fst chain + 1, snd chain) head_chains1, counter + 1)
         else (AList.update counter (fst chain, snd chain + 1) head_chains1, 1))"

text \<open>
  The loop \<open>for _ in range(num_trials)\<close> from the state \<open>({}, 1)\<close>; the
  \<open>i\<close>-th call of \<open>flip_coin\<close> uses the \<open>i\<close>-th draw of the process's random
  generator, \<open>rnd i\<close>. A negative \<open>num_trials\<close> gives an empty range.
\<close>

definition trials_loop :: "int \<Rightarrow> (nat \<Rightarrow> rat) \<Rightarrow> histogram \<times> int" where
  "trials_loop num_trials rnd =
     foldl (\<lambda>s i. trial_step s (flip_coin (rnd i))) ([], 1) [0..<nat num_trials]"

text \<open>
  \<open>perform_trials\<close> returns the histogram and, when a queue is supplied, puts the
  histogram on it: the queue is a list, \<open>None\<close> when the argument is omitted.
\<close>

definition perform_trials ::
  "int \<Rightarrow> histogram list option \<Rightarrow> (nat \<Rightarrow> rat) \<Rightarrow> histogram \<times> histogram list option" where
  "perform_trials num_trials q rnd =
     (let head_chains = fst (trials_loop num_trials rnd)
      in (head_chains,
          case q of None \<Rightarrow> None | Some items \<Rightarrow> Some (items @ [head_chains])))"

subsection \<open>Result merger\<close>

text \<open>
  The body of the inner loop of \<open>merge_trials\<close> for the key \<open>k\<close> of \<open>tr\<close>:
  \<open>item = tr[k]\<close>, then either the two additions into \<open>d[k]\<close> or the copy
  \<open>d[k] = item[:]\<close>. The keys iterated are those of \<open>tr\<close>, so the lookup
  \<open>tr[k]\<close> finds a value; the \<open>None\<close> branch is never taken on them.
\<close>

definition merge_key :: "histogram \<Rightarrow> histogram \<Rightarrow> int \<Rightarrow> histogram" where
  "merge_key tr d k =
     (case map_of tr k of
        None \<Rightarrow> d
      | Some item \<Rightarrow>
          (case map_of d k of
             Some v \<Rightarrow> AList.update k (fst v + fst item, snd v + snd item) d
           | None \<Rightarrow> AList.update k item d))"

definition merge_trials :: "histogram list \<Rightarrow> histogram" where
  "merge_trials trial_results =
     foldl (\<lambda>d tr. foldl (merge_key tr) d (map fst tr)) [] trial_results"

subsection \<open>Entry point\<close>

text \<open>
  What \<open>main\<close> can observe and change: the file system (a path names a regular
  file with its CSV rows, a directory, or nothing), the worker processes it has
  started (their batch sizes, in order) and the lines it has printed. The
  elapsed time of the timing line is not part of the model.
\<close>

datatype cell = Str string | Num int

datatype node = RegularFile "cell list list" | Directory

datatype message = TimingMessage int | DumpedMessage string

record world =
  files :: "string \<rightharpoonup> node"
  started :: "int list"
  stdout :: "message list"

definition isfile :: "world \<Rightarrow> string \<Rightarrow> bool" where
  "isfile w path = (case files w path of Some (RegularFile rows) \<Rightarrow> True | _ \<Rightarrow> False)"

text \<open>\<open>max\<close> of a sequence of integers raises \<open>ValueError\<close> when it is empty.\<close>

definition py_max :: "int list \<Rightarrow> error + int" where
  "py_max xs = (case xs of [] \<Rightarrow> Inl ValueError | x # rest \<Rightarrow> Inr (foldl max x rest))"

text \<open>
  The rows written by \<open>main\<close>: the header, then one row for every
  \<open>i\<close> in \<open>range(1, m + 1)\<close> with \<open>merged_results.get(i, [0, 0])\<close>.
\<close>

definition csv_rows :: "histogram \<Rightarrow> int \<Rightarrow> cell list list" where
  "csv_rows merged_results m =
     [Str ''chain_length'', Str ''heads'', Str ''tails'']
     # map (\<lambda>i. case (case map_of merged_results i of Some v \<Rightarrow> v | None \<Rightarrow> (0, 0)) of
                  (num_heads, num_tails) \<Rightarrow> [Num i, Num num_heads, Num num_tails])
           [1..m]"

text \<open>
  The worker processes run concurrently, each with its own random generator
  (\<open>rnds i\<close> for the \<open>i\<close>-th process started), and put their histograms on the
  shared queue as they finish. \<open>arrival\<close> is the order in which the workers
  finish, by index; an index that names no started worker is ignored.
  \<open>collect_queue\<close> is the queue once they have all finished.
\<close>

definition collect_queue :: "int list \<Rightarrow> (nat \<Rightarrow> nat \<Rightarrow> rat) \<Rightarrow> nat list \<Rightarrow> histogram list" where
  "collect_queue sizes rnds arrival =
     foldl (\<lambda>q i. case snd (perform_trials (sizes ! i) (Some q) (rnds i)) of
                     Some q' \<Rightarrow> q' | None \<Rightarrow> q)
           [] (filter (\<lambda>i. i < length sizes) arrival)"

text \<open>
  \<open>main\<close> up to the merge: the existence check, the split, the start of the
  workers, the collector loop taking \<open>num_workers\<close> results off the queue (it
  waits for ever when fewer arrive), the timing line and the merge.
\<close>

definition run_workers ::
  "string \<Rightarrow> int \<Rightarrow> int \<Rightarrow> (nat \<Rightarrow> nat \<Rightarrow> rat) \<Rightarrow> nat list \<Rightarrow> world
     \<Rightarrow> (error + histogram) \<times> world" where
  "run_workers out_file num_trials num_workers rnds arrival w =
     (if isfile w out_file then (Inl (FileExists out_file), w)
      else case yield_worker_batch_sizes num_trials num_workers of
        Inl e \<Rightarrow> (Inl e, w)
      | Inr sizes \<Rightarrow>
          let w1 = w\<lparr>started := started w @ sizes\<rparr>;
              q = collect_queue sizes rnds arrival
          in if int (length q) < num_workers then (Inl BlocksForever, w1)
             else
               let results = take (nat num_workers) q;
                   w2 = w1\<lparr>stdout := stdout w1 @ [TimingMessage num_trials]\<rparr>
               in (Inr (merge_trials results), w2))"

text \<open>
  \<open>main\<close>: after the merge, \<open>max\<close> of the keys, then the file is opened for
  writing (which fails on a directory), the rows are written and the last line
  is printed.
\<close>

definition main ::
  "string \<Rightarrow> int \<Rightarrow> int \<Rightarrow> (nat \<Rightarrow> nat \<Rightarrow> rat) \<Rightarrow> nat list \<Rightarrow> world
     \<Rightarrow> (error + unit) \<times> world" where
  "main out_file num_trials num_workers rnds arrival w =
     (case run_workers out_file num_trials num_workers rnds arrival w of
        (Inl e, w') \<Rightarrow> (Inl e, w')
      | (Inr merged_results, w2) \<Rightarrow>
          (case py_max (map fst merged_results) of
             Inl e \<Rightarrow> (Inl e, w2)
           | Inr m \<Rightarrow>
               (case files w2 out_file of
                  Some Directory \<Rightarrow> (Inl IsADirectoryError, w2)
                | _ \<Rightarrow>
                    (Inr (),
                     w2\<lparr>files := (files w2)(out_file \<mapsto> RegularFile (csv_rows merged_results m)),
                        stdout := stdout w2 @ [DumpedMessage out_file]\<rparr>))))"

text \<open>
  The signature \<open>main(out_file, num_trials=1000, num_workers=1)\<close>: an omitted
  argument is \<open>None\<close> and takes the default of the signature.
\<close>

definition main_defaults :: "int option \<Rightarrow> int option \<Rightarrow> int \<times> int" where
  "main_defaults num_trials num_workers =
     ((case num_trials of None \<Rightarrow> 1000 | Some n \<Rightarrow> n),
      (case num_workers of None \<Rightarrow> 1 | Some n \<Rightarrow> n))"

definition main_call ::
  "string \<Rightarrow> int option \<Rightarrow> int option \<Rightarrow> (nat \<Rightarrow> nat \<Rightarrow> rat) \<Rightarrow> nat list \<Rightarrow> world
     \<Rightarrow> (error + unit) \<times> world" where
  "main_call out_file num_trials num_workers rnds arrival w =
     (case main_defaults num_trials num_workers of
        (nt, nw) \<Rightarrow> main out_file nt nw rnds arrival w)"

text \<open>
  \<open>os.path.join\<close> of two components on a POSIX host, and the block run when the
  file is executed as a script: \<open>cpu_count\<close> is \<open>mp.cpu_count()\<close> and \<open>home\<close>
  is \<open>str(pathlib.Path.home())\<close>.
\<close>

definition path_join :: "string \<Rightarrow> string \<Rightarrow> string" where
  "path_join a b =
     (if b \<noteq> [] \<and> hd b = CHR ''/'' then b
      else if a = [] \<or> last a = CHR ''/'' then a @ b
      else a @ ''/'' @ b)"

definition script_entry ::
  "int \<Rightarrow> string \<Rightarrow> (nat \<Rightarrow> nat \<Rightarrow> rat) \<Rightarrow> nat list \<Rightarrow> world \<Rightarrow> (error + unit) \<times> world" where
  "script_entry cpu_count home rnds arrival w =
     (let nt = 1000000;
          np = cpu_count;
          op = path_join home ''probability_data.csv''
      in main_call op (Some nt) (Some np) rnds arrival w)"

subsection \<open>Reading a histogram\<close>

text \<open>
  \<open>chain_at h k\<close> is \<open>h.get(k, [0, 0])\<close>. \<open>total_flips\<close> is the sum of
  heads + tails over all keys of a histogram and \<open>total_tails\<close> the sum of the
  tails; the specification speaks of both.
\<close>

definition chain_at :: "histogram \<Rightarrow> int \<Rightarrow> chain" where
  "chain_at h k = (case map_of h k of Some c \<Rightarrow> c | None \<Rightarrow> (0, 0))"

definition total_flips :: "histogram \<Rightarrow> int" where
  "total_flips h = sum_list (map (\<lambda>(k, c). fst c + snd c) h)"

definition total_tails :: "histogram \<Rightarrow> int" where
  "total_tails h = sum_list (map (\<lambda>(k, c). snd c) h)"

text \<open>A sequence of draws for the examples: heads, heads, tails, and so on.\<close>

definition example_draws :: "nat \<Rightarrow> rat" where
  "example_draws i = (if i mod 3 = 2 then 0 else 3 / 4)"

text \<open>
  The element-wise sum of two chains, and of the chains that a list of histograms
  holds at a key (a histogram without the key counts as \<open>(0, 0)\<close>).
\<close>

definition chain_add :: "chain \<Rightarrow> chain \<Rightarrow> chain" where
  "chain_add a b = (fst a + fst b, snd a + snd b)"

definition sum_chains :: "histogram list \<Rightarrow> int \<Rightarrow> chain" where
  "sum_chains hs k =
     (sum_list (map (\<lambda>h. fst (chain_at h k)) hs), sum_list (map (\<lambda>h. snd (chain_at h k)) hs))"

text \<open>
  The streak length at the time of flip \<open>i\<close>, as the specification counts it
  (the current streak length starts at 1): one more than the number of
  consecutive heads immediately before flip \<open>i\<close>. \<open>max_streak\<close> is the largest
  streak length at any of the \<open>num_trials\<close> flips, 0 when there is no flip.
\<close>

definition streak_at :: "(nat \<Rightarrow> rat) \<Rightarrow> nat \<Rightarrow> int" where
  "streak_at rnd i =
     1 + int (length (takeWhile (\<lambda>j. flip_coin (rnd j) = Heads) (rev [0..<i])))"

definition max_streak_upto :: "(nat \<Rightarrow> rat) \<Rightarrow> nat \<Rightarrow> int" where
  "max_streak_upto rnd n = foldl max 0 (map (streak_at rnd) [0..<n])"

definition max_streak :: "int \<Rightarrow> (nat \<Rightarrow> rat) \<Rightarrow> int" where
  "max_streak num_trials rnd = max_streak_upto rnd (nat num_trials)"

text \<open>
  The number of flips made at streak length 1: heads + tails of the entry at
  key 1, the two counts of the row \<open>chain_length = 1\<close> of the output.
\<close>

definition key1_count :: "histogram \<Rightarrow> int" where
  "key1_count h = fst (chain_at h 1) + snd (chain_at h 1)"

text \<open>
  Inputs for the examples: a generator that only draws heads, workers that all
  draw the same sequence, a world with no file and one where \<open>out\<close> is a file.
\<close>

definition heads_only :: "nat \<Rightarrow> rat" where
  "heads_only i = 1 / 2"

definition heads_workers :: "nat \<Rightarrow> nat \<Rightarrow> rat" where
  "heads_workers w = heads_only"

definition example_workers :: "nat \<Rightarrow> nat \<Rightarrow> rat" where
  "example_workers w = example_draws"

definition empty_world :: world where
  "empty_world = \<lparr>files = Map.empty, started = [], stdout = []\<rparr>"

definition busy_world :: world where
  "busy_world = \<lparr>files = [''out'' \<mapsto> RegularFile []], started = [], stdout = []\<rparr>"

subsection \<open>The merger on the heap\<close>

text \<open>
  For what \<open>merge_trials\<close> does to its arguments the objects are placed in a
  heap. The two-element lists and the dictionaries are objects with an address;
  a dictionary maps a key to the address of its list. \<open>[0, 0]\<close>-style lists are
  the only objects the function mutates, and \<open>item[:]\<close> allocates a new one.
\<close>

type_synonym addr = nat

record heap =
  list_objs :: "chain list"
  dict_objs :: "(int \<times> addr) list list"

text \<open>
  The body of the inner loop, for the dictionary at \<open>tr\<close>, the result
  dictionary at \<open>d\<close> and the key \<open>k\<close>: \<open>item = tr[k]\<close>; if \<open>k in d\<close> the two
  statements \<open>d[k][0] += item[0]\<close> and \<open>d[k][1] += item[1]\<close>, each reading the
  heap as the statement before left it; otherwise \<open>d[k] = item[:]\<close>, a copy of
  the list at a new address.
\<close>

definition merge_key_heap :: "addr \<Rightarrow> addr \<Rightarrow> heap \<Rightarrow> int \<Rightarrow> heap" where
  "merge_key_heap tr d hp k =
     (case map_of (dict_objs hp ! tr) k of
        None \<Rightarrow> hp
      | Some item \<Rightarrow>
          (case map_of (dict_objs hp ! d) k of
             Some dk \<Rightarrow>
               let hp1 = hp\<lparr>list_objs := (list_objs hp)
                            [dk := (fst (list_objs hp ! dk) + fst (list_objs hp ! item),
                                    snd (list_objs hp ! dk))]\<rparr>
               in hp1\<lparr>list_objs := (list_objs hp1)
                            [dk := (fst (list_objs hp1 ! dk),
                                    snd (list_objs hp1 ! dk) + snd (list_objs hp1 ! item))]\<rparr>
           | None \<Rightarrow>
               hp\<lparr>list_objs := list_objs hp @ [list_objs hp ! item],
                   dict_objs := (dict_objs hp)
                     [d := AList.update k (length (list_objs hp)) (dict_objs hp ! d)]\<rparr>))"

text \<open>
  \<open>merge_trials\<close> on the heap: \<open>trial_results\<close> is the list of the addresses of
  the input dictionaries, \<open>d = {}\<close> allocates the result, and the address of
  \<open>d\<close> is returned with the final heap.
\<close>

definition merge_trials_heap :: "heap \<Rightarrow> addr list \<Rightarrow> heap \<times> addr" where
  "merge_trials_heap hp trial_results =
     (let d = length (dict_objs hp);
          hp0 = hp\<lparr>dict_objs := dict_objs hp @ [[]]\<rparr>
      in (foldl (\<lambda>h tr. foldl (merge_key_heap tr d) h (map fst (dict_objs h ! tr)))
            hp0 trial_results,
          d))"

text \<open>
  The histogram that the dictionary at an address holds, and the inputs that a
  Python caller can pass: addresses of dictionaries of the heap, whose values
  are addresses of lists of the heap.
\<close>

definition histogram_of :: "heap \<Rightarrow> addr \<Rightarrow> histogram" where
  "histogram_of hp a = map (\<lambda>(k, l). (k, list_objs hp ! l)) (dict_objs hp ! a)"

definition wf_inputs :: "heap \<Rightarrow> addr list \<Rightarrow> bool" where
  "wf_inputs hp trial_results =
     list_all (\<lambda>tr. tr < length (dict_objs hp)
                  \<and> distinct (map fst (dict_objs hp ! tr))
                  \<and> list_all (\<lambda>(k, l). l < length (list_objs hp)) (dict_objs hp ! tr))
       trial_results"

text \<open>
  What holds of the heap \<open>h\<close> all through a call started on the heap \<open>hp\<close>:
  one dictionary has been allocated, every object of \<open>hp\<close> is as it was, and the
  lists of the new dictionary are distinct objects allocated after the start.
\<close>

definition merge_inv :: "heap \<Rightarrow> heap \<Rightarrow> bool" where
  "merge_inv hp h =
     (length (dict_objs h) = Suc (length (dict_objs hp))
      \<and> take (length (dict_objs hp)) (dict_objs h) = dict_objs hp
      \<and> length (list_objs hp) \<le> length (list_objs h)
      \<and> take (length (list_objs hp)) (list_objs h) = list_objs hp
      \<and> distinct (map fst (dict_objs h ! length (dict_objs hp)))
      \<and> distinct (map snd (dict_objs h ! length (dict_objs hp)))
      \<and> list_all (\<lambda>(k, l). length (list_objs hp) \<le> l \<and> l < length (list_objs h))
           (dict_objs h ! length (dict_objs hp)))"

definition example_heap :: heap where
  "example_heap =
     \<lparr>list_objs = [(3, 0), (2, 0), (0, 3)], dict_objs = [[(1, 0), (2, 1)], [(1, 2)]]\<rparr>"

section \<open>Properties\<close>

subsection \<open>Batch splitter\<close>

lemma upto_as_upt: "[0..n - 1] = map int [0..<nat n]"
proof (cases "0 \<le> n")
  case True
  then obtain k where k: "n = int k"
    using nonneg_int_cases by blast
  have "[0..int k - 1] = map int [0..<k]"
  proof (induction k)
    case 0
    then show ?case by simp
  next
    case (Suc k)
    have "[0..int (Suc k) - 1] = [0..int k - 1] @ [int k]"
      using upto_rec2 [of 0 "int k"] by simp
    with Suc show ?case by simp
  qed
  with k show ?thesis by simp
next
  case False
  then show ?thesis by simp
qed

lemma batch_list_split:
  assumes "r \<le> n"
  shows "map (\<lambda>i. b + (if i < int r then 1 else 0)) (map int [0..<n])
         = replicate r (b + 1) @ replicate (n - r) (b::int)"
proof -
  have n: "[0..<n] = [0..<r] @ [r..<n]"
    using assms by (metis le_add_diff_inverse upt_add_eq_append zero_le)
  have a: "map (\<lambda>i. b + (if i < int r then 1 else 0)) (map int [0..<r]) = replicate r (b + 1)"
    by (rule nth_equalityI; simp)
  have c: "map (\<lambda>i. b + (if i < int r then 1 else 0)) (map int [r..<n]) = replicate (n - r) b"
    by (rule nth_equalityI; simp)
  show ?thesis
    unfolding n map_append a c ..
qed

lemma sum_list_replicate_int: "sum_list (replicate k (x::int)) = int k * x"
  by (induction k) (simp_all add: algebra_simps)

lemma replicate_append_nth_mono:
  assumes "i \<le> j" "j < r + m"
  shows "(replicate r (b + 1) @ replicate m (b::int)) ! j
           \<le> (replicate r (b + 1) @ replicate m b) ! i
         \<and> (replicate r (b + 1) @ replicate m b) ! i
           - (replicate r (b + 1) @ replicate m b) ! j \<le> 1"
  using assms by (auto simp: nth_append)

text \<open>
  Claim C1. For \<open>total_trials \<ge> 0\<close> and \<open>worker_count \<ge> 1\<close> the splitter
  raises nothing and yields exactly \<open>worker_count\<close> sizes whose sum is
  \<open>total_trials\<close>: the first \<open>remainder\<close> of them are \<open>base + 1\<close> and the
  others \<open>base\<close>, so the sizes never increase and any two differ by at most 1.
  For 7 trials and 3 workers the sizes are 3, 2, 2.
\<close>

theorem yield_worker_batch_sizes_spec:
  assumes "0 \<le> total_trials" and "1 \<le> worker_count"
  shows "(let base = total_trials div worker_count;
              remainder = total_trials - base * worker_count
          in \<exists>sizes. yield_worker_batch_sizes total_trials worker_count = Inr sizes
               \<and> length sizes = nat worker_count
               \<and> sum_list sizes = total_trials
               \<and> 0 \<le> remainder \<and> remainder < worker_count
               \<and> sizes = replicate (nat remainder) (base + 1)
                          @ replicate (nat (worker_count - remainder)) base
               \<and> (\<forall>i j. i \<le> j \<and> j < length sizes \<longrightarrow>
                      sizes ! j \<le> sizes ! i \<and> sizes ! i - sizes ! j \<le> 1))
         \<and> yield_worker_batch_sizes 7 3 = Inr [3, 2, 2]"
proof -
  define base where "base = total_trials div worker_count"
  define remainder where "remainder = total_trials - base * worker_count"
  have rem: "remainder = total_trials mod worker_count"
    unfolding remainder_def base_def by (simp add: minus_div_mult_eq_mod)
  have r0: "0 \<le> remainder" and r1: "remainder < worker_count"
    using assms(2) by (simp_all add: rem)
  define sizes where
    "sizes = replicate (nat remainder) (base + 1)
             @ replicate (nat (worker_count - remainder)) base"
  have le: "nat remainder \<le> nat worker_count"
    using r0 r1 by simp
  have "yield_worker_batch_sizes total_trials worker_count
        = Inr (map (\<lambda>i. base + (if i < int (nat remainder) then 1 else 0))
                (map int [0..<nat worker_count]))"
    using assms(2) r0
    by (simp add: yield_worker_batch_sizes_def Let_def upto_as_upt base_def remainder_def)
  also have "\<dots> = Inr sizes"
    using batch_list_split [OF le, of base] r0 r1
    by (simp add: sizes_def nat_diff_distrib)
  finally have y: "yield_worker_batch_sizes total_trials worker_count = Inr sizes" .
  have len: "length sizes = nat worker_count"
    using r0 r1 by (simp add: sizes_def)
  have "sum_list sizes = remainder * (base + 1) + (worker_count - remainder) * base"
    using r0 r1 by (simp add: sizes_def sum_list_replicate_int)
  also have "\<dots> = total_trials"
    unfolding remainder_def by (simp add: algebra_simps)
  finally have s: "sum_list sizes = total_trials" .
  have mono: "\<forall>i j. i \<le> j \<and> j < length sizes \<longrightarrow>
                  sizes ! j \<le> sizes ! i \<and> sizes ! i - sizes ! j \<le> 1"
  proof (intro allI impI)
    fix i j
    assume "i \<le> j \<and> j < length sizes"
    then have "i \<le> j" "j < nat remainder + nat (worker_count - remainder)"
      by (simp_all add: sizes_def)
    then show "sizes ! j \<le> sizes ! i \<and> sizes ! i - sizes ! j \<le> 1"
      unfolding sizes_def by (rule replicate_append_nth_mono)
  qed
  have general: "\<exists>sizes. yield_worker_batch_sizes total_trials worker_count = Inr sizes
           \<and> length sizes = nat worker_count
           \<and> sum_list sizes = total_trials
           \<and> 0 \<le> remainder \<and> remainder < worker_count
           \<and> sizes = replicate (nat remainder) (base + 1)
                      @ replicate (nat (worker_count - remainder)) base
           \<and> (\<forall>i j. i \<le> j \<and> j < length sizes \<longrightarrow>
                  sizes ! j \<le> sizes ! i \<and> sizes ! i - sizes ! j \<le> 1)"
    using y len s r0 r1 mono sizes_def by blast
  have example: "yield_worker_batch_sizes 7 3 = Inr [3, 2, 2]"
    by (simp add: yield_worker_batch_sizes_def Let_def upto.simps)
  from general example show ?thesis
    unfolding Let_def base_def [symmetric] remainder_def [symmetric] by (rule conjI)
qed

theorem yield_worker_batch_sizes_spec_witness:
  "(0::int) \<le> 10 \<and> (1::int) \<le> 4
   \<and> yield_worker_batch_sizes 10 4 = Inr [3, 3, 2, 2]
   \<and> sum_list [3, 3, 2, 2] = (10::int)"
proof -
  have "\<exists>sizes. yield_worker_batch_sizes 10 4 = Inr sizes
          \<and> sizes = replicate (nat (10 - 10 div 4 * 4)) (10 div 4 + 1)
                     @ replicate (nat (4 - (10 - 10 div 4 * 4))) (10 div 4)"
    using yield_worker_batch_sizes_spec [of 10 4] unfolding Let_def by auto
  then have "yield_worker_batch_sizes 10 4 = Inr [3, 3, 2, 2]"
    by (simp add: numeral_eq_Suc)
  then show ?thesis by simp
qed

subsection \<open>Trial runner\<close>

lemma total_flips_Nil: "total_flips [] = 0"
  by (simp add: total_flips_def)

lemma set_update_subset: "set (AList.update k v d) \<subseteq> insert (k, v) (set d)"
  by (induction d) auto

lemma sum_list_update:
  assumes "distinct (map fst d)"
  shows "sum_list (map (\<lambda>(k, c). f c) (AList.update k v d))
         = sum_list (map (\<lambda>(k, c). f c) d)
           - (case map_of d k of None \<Rightarrow> 0 | Some c \<Rightarrow> f c) + (f v :: int)"
  using assms
proof (induction d)
  case Nil
  then show ?case by simp
next
  case (Cons p d)
  obtain k' c' where p: "p = (k', c')" by (cases p)
  show ?case
  proof (cases "k' = k")
    case True
    then show ?thesis using p by simp
  next
    case False
    then show ?thesis using p Cons by simp
  qed
qed

lemma trial_step_alt:
  "trial_step (head_chains, counter) flip =
     (AList.update counter
        (if flip = Heads then (fst (chain_at head_chains counter) + 1, snd (chain_at head_chains counter))
         else (fst (chain_at head_chains counter), snd (chain_at head_chains counter) + 1))
        head_chains,
      if flip = Heads then counter + 1 else 1)"
  by (simp add: chain_at_def Let_def split: option.splits)

declare trial_step.simps [simp del]

lemma trials_loop_induct:
  assumes "P 0 ([], 1)"
    and "\<And>i hc c. P i (hc, c) \<Longrightarrow> i < nat n
            \<Longrightarrow> P (Suc i) (trial_step (hc, c) (flip_coin (rnd i)))"
  shows "P (nat n) (trials_loop n rnd)"
proof -
  have "k \<le> nat n \<Longrightarrow>
        P k (foldl (\<lambda>s i. trial_step s (flip_coin (rnd i))) ([], 1) [0..<k])" for k
  proof (induction k)
    case 0
    then show ?case using assms(1) by simp
  next
    case (Suc k)
    then have "P k (foldl (\<lambda>s i. trial_step s (flip_coin (rnd i))) ([], 1) [0..<k])"
      by simp
    moreover have "k < nat n" using Suc.prems by simp
    ultimately show ?case
      using assms(2) [of k "fst (foldl (\<lambda>s i. trial_step s (flip_coin (rnd i))) ([], 1) [0..<k])"
                           "snd (foldl (\<lambda>s i. trial_step s (flip_coin (rnd i))) ([], 1) [0..<k])"]
      by simp
  qed
  then show ?thesis by (simp add: trials_loop_def)
qed


lemma trial_step_distinct:
  "distinct (map fst hc) \<Longrightarrow> distinct (map fst (fst (trial_step (hc, c) flip)))"
  by (simp add: trial_step_alt distinct_update)

lemma trial_step_total:
  assumes "distinct (map fst hc)"
  shows "total_flips (fst (trial_step (hc, c) flip)) = total_flips hc + 1"
proof -
  have "total_flips (AList.update c v hc) = total_flips hc
          - (fst (chain_at hc c) + snd (chain_at hc c)) + (fst v + snd v)" for v
    using sum_list_update [OF assms, of "\<lambda>c. fst c + snd c" c v]
    by (simp add: total_flips_def chain_at_def split: option.splits)
  then show ?thesis
    by (simp add: trial_step_alt)
qed

lemma trial_step_entries:
  assumes "\<forall>(k, e) \<in> set hc. 0 \<le> fst e \<and> 0 \<le> snd e \<and> 1 \<le> fst e + snd e"
  shows "\<forall>(k, e) \<in> set (fst (trial_step (hc, c) flip)).
           0 \<le> fst e \<and> 0 \<le> snd e \<and> 1 \<le> fst e + snd e"
proof -
  define ok :: "chain \<Rightarrow> bool" where "ok e = (0 \<le> fst e \<and> 0 \<le> snd e \<and> 1 \<le> fst e + snd e)" for e
  have old: "\<forall>(k, e) \<in> set hc. ok e"
    using assms by (simp add: ok_def)
  have ch: "0 \<le> fst (chain_at hc c) \<and> 0 \<le> snd (chain_at hc c)"
    using assms by (auto simp: chain_at_def split: option.splits dest!: map_of_SomeD)
  have upd: "\<forall>(k, e) \<in> set (AList.update c v hc). ok e" if "ok v" for v
    using old that set_update_subset [of c v hc] by blast
  have "ok (fst (chain_at hc c) + 1, snd (chain_at hc c))"
    and "ok (fst (chain_at hc c), snd (chain_at hc c) + 1)"
    using ch by (simp_all add: ok_def)
  then have "\<forall>(k, e) \<in> set (fst (trial_step (hc, c) flip)). ok e"
    by (cases flip) (simp_all add: trial_step_alt upd)
  then show ?thesis
    by (simp add: ok_def)
qed

lemma trials_loop_distinct: "distinct (map fst (fst (trials_loop n rnd)))"
  by (rule trials_loop_induct [where P = "\<lambda>i s. distinct (map fst (fst s))"])
     (simp_all add: trial_step_distinct)

lemma trials_loop_total: "total_flips (fst (trials_loop n rnd)) = int (nat n)"
proof -
  have "distinct (map fst (fst (trials_loop n rnd)))
        \<and> total_flips (fst (trials_loop n rnd)) = int (nat n)"
    by (rule trials_loop_induct
      [where P = "\<lambda>i s. distinct (map fst (fst s)) \<and> total_flips (fst s) = int i"])
       (simp_all add: trial_step_distinct trial_step_total total_flips_Nil)
  then show ?thesis by simp
qed

lemma trials_loop_entries:
  "\<forall>(k, e) \<in> set (fst (trials_loop n rnd)). 0 \<le> fst e \<and> 0 \<le> snd e \<and> 1 \<le> fst e + snd e"
  by (rule trials_loop_induct
      [where P = "\<lambda>i s. \<forall>(k, e) \<in> set (fst s). 0 \<le> fst e \<and> 0 \<le> snd e \<and> 1 \<le> fst e + snd e"])
     (simp_all add: trial_step_entries)

text \<open>
  Claim C10. Every key of the histogram returned by the trial runner has
  heads + tails at least 1 (and neither count negative): the entry created as
  \<open>(0, 0)\<close> before a flip is incremented by that flip, so no all-zero entry
  remains.
\<close>

theorem perform_trials_no_zero_entry:
  "\<forall>(k, e) \<in> set (fst (perform_trials num_trials q rnd)).
     0 \<le> fst e \<and> 0 \<le> snd e \<and> 1 \<le> fst e + snd e"
  using trials_loop_entries [of num_trials rnd]
  by (simp add: perform_trials_def Let_def)

lemma perform_trials_example:
  "fst (perform_trials 7 None example_draws) = [(1, (3, 0)), (2, (2, 0)), (3, (0, 2))]"
  by code_simp

theorem perform_trials_no_zero_entry_witness:
  "(3, (0, 2)) \<in> set (fst (perform_trials 7 None example_draws))
   \<and> (1::int) \<le> fst (0, 2) + snd (0::int, 2::int)"
  using perform_trials_no_zero_entry [of 7 None example_draws]
  by (simp add: perform_trials_example)

subsection \<open>Result merger\<close>

lemma chain_at_keys: "k \<notin> fst ` set h \<Longrightarrow> chain_at h k = (0, 0)"
  by (simp add: chain_at_def map_of_eq_None_iff [symmetric] del: map_of_eq_None_iff)

lemma map_of_chain_at:
  "map_of h k = (if k \<in> fst ` set h then Some (chain_at h k) else None)"
  by (auto simp: chain_at_def map_of_eq_None_iff [symmetric] simp del: map_of_eq_None_iff
           split: option.splits)

lemma merge_key_map_of:
  "map_of (merge_key tr d k) k' =
     (if k' = k \<and> k \<in> fst ` set tr then Some (chain_add (chain_at d k) (chain_at tr k))
      else map_of d k')"
  by (auto simp: merge_key_def chain_add_def chain_at_def update_conv'
                 map_of_eq_None_iff [symmetric]
           simp del: map_of_eq_None_iff split: option.splits)

lemma merge_key_distinct: "distinct (map fst d) \<Longrightarrow> distinct (map fst (merge_key tr d k))"
  by (simp add: merge_key_def distinct_update split: option.splits)

lemma merge_key_keys:
  "fst ` set (merge_key tr d k) = (if k \<in> fst ` set tr then insert k (fst ` set d) else fst ` set d)"
proof (cases "map_of tr k")
  case None
  have a: "merge_key tr d k = d"
    by (simp add: merge_key_def None)
  have b: "k \<notin> fst ` set tr"
    using None by (simp add: map_of_eq_None_iff)
  show ?thesis
    by (simp add: a b)
next
  case (Some item)
  then have "k \<in> fst ` set tr"
    by (metis map_of_eq_None_iff option.distinct(1))
  then show ?thesis
    using Some by (simp add: merge_key_def dom_update split: option.splits)
qed

lemma foldl_merge_key_distinct:
  "distinct (map fst d) \<Longrightarrow> distinct (map fst (foldl (merge_key tr) d ks))"
  by (induction ks arbitrary: d) (simp_all add: merge_key_distinct)

lemma foldl_merge_key_keys:
  "set ks \<subseteq> fst ` set tr \<Longrightarrow> fst ` set (foldl (merge_key tr) d ks) = fst ` set d \<union> set ks"
  by (induction ks arbitrary: d) (auto simp: merge_key_keys)

lemma foldl_merge_key_chain_at:
  assumes "distinct ks" and "set ks \<subseteq> fst ` set tr"
  shows "chain_at (foldl (merge_key tr) d ks) k =
           (if k \<in> set ks then chain_add (chain_at d k) (chain_at tr k) else chain_at d k)"
  using assms
proof (induction ks arbitrary: d)
  case Nil
  then show ?case by simp
next
  case (Cons x ks)
  have x: "chain_at (merge_key tr d x) k =
             (if k = x then chain_add (chain_at d x) (chain_at tr x) else chain_at d k)"
    using Cons.prems(2) by (simp add: chain_at_def [of "merge_key tr d x"] merge_key_map_of)
       (simp add: chain_at_def)
  show ?case
    using Cons.prems Cons.IH [of "merge_key tr d x"] x by auto
qed

lemma merge_tr_chain_at:
  assumes "distinct (map fst tr)"
  shows "chain_at (foldl (merge_key tr) d (map fst tr)) k = chain_add (chain_at d k) (chain_at tr k)"
proof (cases "k \<in> fst ` set tr")
  case True
  then show ?thesis
    using foldl_merge_key_chain_at [OF assms, of tr d k] by simp
next
  case False
  then show ?thesis
    using foldl_merge_key_chain_at [OF assms, of tr d k]
    by (simp add: chain_at_keys chain_add_def)
qed

lemma merge_tr_keys:
  "fst ` set (foldl (merge_key tr) d (map fst tr)) = fst ` set d \<union> fst ` set tr"
  using foldl_merge_key_keys [of "map fst tr" tr d] by simp

lemma merge_fold_props:
  assumes "\<forall>h \<in> set hs. distinct (map fst h)" and "distinct (map fst d)"
  shows "distinct (map fst (foldl (\<lambda>d tr. foldl (merge_key tr) d (map fst tr)) d hs))
       \<and> fst ` set (foldl (\<lambda>d tr. foldl (merge_key tr) d (map fst tr)) d hs)
           = fst ` set d \<union> (\<Union>h \<in> set hs. fst ` set h)
       \<and> chain_at (foldl (\<lambda>d tr. foldl (merge_key tr) d (map fst tr)) d hs) k
           = chain_add (chain_at d k) (sum_chains hs k)"
  using assms
proof (induction hs arbitrary: d)
  case Nil
  then show ?case by (simp add: sum_chains_def chain_add_def)
next
  case (Cons tr hs)
  have tr: "distinct (map fst tr)" and hs: "\<forall>h \<in> set hs. distinct (map fst h)"
    using Cons.prems(1) by simp_all
  let ?d = "foldl (merge_key tr) d (map fst tr)"
  have d': "distinct (map fst ?d)"
    using Cons.prems(2) by (rule foldl_merge_key_distinct)
  have add: "chain_add (chain_add (chain_at d k) (chain_at tr k)) (sum_chains hs k)
             = chain_add (chain_at d k) (sum_chains (tr # hs) k)"
    by (simp add: chain_add_def sum_chains_def)
  show ?case
    using Cons.IH [OF hs d'] add
    by (simp add: merge_tr_keys merge_tr_chain_at [OF tr] Un_assoc)
qed

lemma merge_trials_distinct:
  "\<forall>h \<in> set hs. distinct (map fst h) \<Longrightarrow> distinct (map fst (merge_trials hs))"
  using merge_fold_props [of hs "[]"] by (simp add: merge_trials_def)

lemma merge_trials_keys:
  "\<forall>h \<in> set hs. distinct (map fst h) \<Longrightarrow>
   fst ` set (merge_trials hs) = (\<Union>h \<in> set hs. fst ` set h)"
  using merge_fold_props [of hs "[]"] by (simp add: merge_trials_def)

lemma merge_trials_chain_at:
  "\<forall>h \<in> set hs. distinct (map fst h) \<Longrightarrow> chain_at (merge_trials hs) k = sum_chains hs k"
  using merge_fold_props [of hs "[]" k]
  by (simp add: merge_trials_def chain_at_def [of "[]"] chain_add_def)


lemma merge_trials_map_of:
  assumes "\<forall>h \<in> set hs. distinct (map fst h)"
  shows "map_of (merge_trials hs) k =
           (if k \<in> (\<Union>h \<in> set hs. fst ` set h) then Some (sum_chains hs k) else None)"
  using merge_trials_keys [OF assms] merge_trials_chain_at [OF assms, of k]
  by (simp add: map_of_chain_at [of "merge_trials hs"])

text \<open>
  Claim C2. For every sequence of histograms (dictionaries, so with distinct
  keys) \<open>merge_trials\<close> returns their element-wise sum: the keys of the
  result are the union of the keys of the inputs, and at each of them the value
  is the pair of the sum of the heads and the sum of the tails over the inputs,
  an input without the key counting as \<open>(0, 0)\<close>.
\<close>

theorem merge_trials_elementwise_sum:
  assumes "\<forall>h \<in> set hs. distinct (map fst h)"
  shows "distinct (map fst (merge_trials hs))
       \<and> fst ` set (merge_trials hs) = (\<Union>h \<in> set hs. fst ` set h)
       \<and> (\<forall>k. map_of (merge_trials hs) k =
              (if k \<in> (\<Union>h \<in> set hs. fst ` set h)
               then Some (sum_list (map (\<lambda>h. fst (chain_at h k)) hs),
                          sum_list (map (\<lambda>h. snd (chain_at h k)) hs))
               else None))"
  using merge_trials_distinct [OF assms] merge_trials_keys [OF assms]
    merge_trials_map_of [OF assms]
  by (simp add: sum_chains_def)

lemma merge_trials_example:
  "merge_trials [[(1, (3, 0)), (2, (2, 0)), (3, (0, 2))], [(1, (0, 3))], [(4, (1, 0)), (1, (1, 1))]]
   = [(1, (4, 4)), (2, (2, 0)), (3, (0, 2)), (4, (1, 0))]"
  by code_simp

theorem merge_trials_elementwise_sum_witness:
  "map_of (merge_trials [[(1, (3, 0)), (2, (2, 0)), (3, (0, 2))], [(1, (0, 3))],
                         [(4, (1, 0)), (1, (1, 1))]]) 1
     = Some (3 + 0 + 1, 0 + 3 + 1)
   \<and> fst ` set (merge_trials [[(1, (3, 0)), (2, (2, 0)), (3, (0, 2))], [(1, (0, 3))],
                         [(4, (1, 0)), (1, (1, 1))]]) = {1, 2, 3, 4}"
  using merge_trials_elementwise_sum
    [of "[[(1, (3, 0)), (2, (2, 0)), (3, (0, 2))], [(1, (0, 3))], [(4, (1, 0)), (1, (1, 1))]]"]
  by (simp add: chain_at_def insert_commute)

lemma sum_chains_perm: "mset hs = mset hs' \<Longrightarrow> sum_chains hs k = sum_chains hs' k"
proof -
  assume a: "mset hs = mset hs'"
  have "sum_list (map f hs) = sum_list (map f hs')" for f :: "histogram \<Rightarrow> int"
    using a by (metis mset_map sum_mset_sum_list)
  then show ?thesis
    by (simp add: sum_chains_def)
qed

lemma merge_trials_perm:
  assumes "mset hs = mset hs'" and "\<forall>h \<in> set hs. distinct (map fst h)"
  shows "map_of (merge_trials hs) = map_of (merge_trials hs')"
proof
  fix k
  have s: "set hs = set hs'"
    using assms(1) by (rule mset_eq_setD)
  then have d': "\<forall>h \<in> set hs'. distinct (map fst h)"
    using assms(2) by simp
  show "map_of (merge_trials hs) k = map_of (merge_trials hs') k"
    unfolding merge_trials_map_of [OF assms(2)] merge_trials_map_of [OF d']
    using s sum_chains_perm [OF assms(1)] by simp
qed

lemma update_fresh: "k \<notin> fst ` set d \<Longrightarrow> AList.update k v d = d @ [(k, v)]"
  by (induction d) auto

lemma merge_into_prefix:
  assumes "distinct (map fst (d @ rest))" and "tr = d @ rest"
  shows "foldl (merge_key tr) d (map fst rest) = tr"
  using assms
proof (induction rest arbitrary: d)
  case Nil
  then show ?case by simp
next
  case (Cons p rest)
  obtain k c where p: "p = (k, c)" by (cases p)
  have dist: "distinct (map fst tr)"
    using Cons.prems by simp
  have "(k, c) \<in> set tr"
    using Cons.prems(2) p by simp
  then have tr_k: "map_of tr k = Some c"
    using dist by (simp add: map_of_is_SomeI)
  have fresh: "k \<notin> fst ` set d"
    using Cons.prems(1) p by auto
  then have d_k: "map_of d k = None"
    by (simp add: map_of_eq_None_iff)
  have step: "merge_key tr d k = d @ [(k, c)]"
    by (simp add: merge_key_def tr_k d_k update_fresh [OF fresh])
  have "foldl (merge_key tr) (d @ [(k, c)]) (map fst rest) = tr"
    using Cons.prems p by (intro Cons.IH) simp_all
  then show ?case
    using p step by simp
qed

lemma merge_trials_single: "distinct (map fst h) \<Longrightarrow> merge_trials [h] = h"
  using merge_into_prefix [of "[]" h h] by (simp add: merge_trials_def)


lemma merge_trials_nested_left:
  assumes "\<forall>h \<in> set hs. distinct (map fst h)" and "\<forall>h \<in> set hs'. distinct (map fst h)"
  shows "map_of (merge_trials (merge_trials hs # hs')) = map_of (merge_trials (hs @ hs'))"
proof
  fix k
  have m: "distinct (map fst (merge_trials hs))"
    using assms(1) by (rule merge_trials_distinct)
  have a: "\<forall>h \<in> set (merge_trials hs # hs'). distinct (map fst h)"
    using m assms(2) by simp
  have b: "\<forall>h \<in> set (hs @ hs'). distinct (map fst h)"
    using assms by auto
  have c: "sum_chains (merge_trials hs # hs') k = sum_chains (hs @ hs') k"
    using merge_trials_chain_at [OF assms(1), of k]
    by (simp add: sum_chains_def)
  show "map_of (merge_trials (merge_trials hs # hs')) k = map_of (merge_trials (hs @ hs')) k"
    unfolding merge_trials_map_of [OF a] merge_trials_map_of [OF b] c
    using merge_trials_keys [OF assms(1)] by simp
qed

lemma merge_trials_nested_right:
  assumes "\<forall>h \<in> set hs. distinct (map fst h)" and "\<forall>h \<in> set hs'. distinct (map fst h)"
  shows "map_of (merge_trials (hs @ [merge_trials hs'])) = map_of (merge_trials (hs @ hs'))"
proof
  fix k
  have m: "distinct (map fst (merge_trials hs'))"
    using assms(2) by (rule merge_trials_distinct)
  have a: "\<forall>h \<in> set (hs @ [merge_trials hs']). distinct (map fst h)"
    using m assms(1) by simp
  have b: "\<forall>h \<in> set (hs @ hs'). distinct (map fst h)"
    using assms by auto
  have c: "sum_chains (hs @ [merge_trials hs']) k = sum_chains (hs @ hs') k"
    using merge_trials_chain_at [OF assms(2), of k]
    by (simp add: sum_chains_def)
  show "map_of (merge_trials (hs @ [merge_trials hs'])) k = map_of (merge_trials (hs @ hs')) k"
    unfolding merge_trials_map_of [OF a] merge_trials_map_of [OF b] c
    using merge_trials_keys [OF assms(2)] by simp
qed

lemma merge_trials_empty_right: "distinct (map fst h) \<Longrightarrow> merge_trials [h, []] = h"
  using merge_trials_single [of h] by (simp add: merge_trials_def)

lemma merge_trials_empty_left: "distinct (map fst h) \<Longrightarrow> merge_trials [[], h] = h"
  using merge_trials_single [of h] by (simp add: merge_trials_def)


text \<open>
  Claim C3. Merging does not depend on the order. Equality of dictionaries is
  equality of their lookups (\<open>map_of\<close>), as Python's \<open>==\<close> on \<open>dict\<close>
  ignores insertion order. For histograms \<open>H1\<close>, \<open>H2\<close>, \<open>H3\<close>:
  merging is associative, both groupings equal the merge of all three, every
  reordering of the three gives the same result, merging two is commutative,
  and merging with the empty histogram on either side returns the histogram
  itself, with its keys in the same order.
\<close>

theorem merge_trials_order_independent:
  assumes "distinct (map fst H1)" and "distinct (map fst H2)" and "distinct (map fst H3)"
  shows "map_of (merge_trials [merge_trials [H1, H2], H3])
           = map_of (merge_trials [H1, merge_trials [H2, H3]])
       \<and> map_of (merge_trials [merge_trials [H1, H2], H3]) = map_of (merge_trials [H1, H2, H3])
       \<and> (\<forall>hs. mset hs = mset [H1, H2, H3] \<longrightarrow>
              map_of (merge_trials hs) = map_of (merge_trials [H1, H2, H3]))
       \<and> map_of (merge_trials [H1, H2]) = map_of (merge_trials [H2, H1])
       \<and> merge_trials [H1, []] = H1
       \<and> merge_trials [[], H1] = H1"
proof -
  have d12: "\<forall>h \<in> set [H1, H2]. distinct (map fst h)"
    and d23: "\<forall>h \<in> set [H2, H3]. distinct (map fst h)"
    and d1: "\<forall>h \<in> set [H1]. distinct (map fst h)"
    and d3: "\<forall>h \<in> set [H3]. distinct (map fst h)"
    and d123: "\<forall>h \<in> set [H1, H2, H3]. distinct (map fst h)"
    using assms by simp_all
  have l: "map_of (merge_trials [merge_trials [H1, H2], H3]) = map_of (merge_trials [H1, H2, H3])"
    using merge_trials_nested_left [OF d12 d3] by simp
  have r: "map_of (merge_trials [H1, merge_trials [H2, H3]]) = map_of (merge_trials [H1, H2, H3])"
    using merge_trials_nested_right [OF d1 d23] by simp
  have p: "\<forall>hs. mset hs = mset [H1, H2, H3] \<longrightarrow>
              map_of (merge_trials hs) = map_of (merge_trials [H1, H2, H3])"
  proof (intro allI impI)
    fix hs :: "histogram list"
    assume "mset hs = mset [H1, H2, H3]"
    then have "mset [H1, H2, H3] = mset hs" by (rule sym)
    from merge_trials_perm [OF this d123]
    show "map_of (merge_trials hs) = map_of (merge_trials [H1, H2, H3])" by (rule sym)
  qed
  have "mset [H1, H2] = mset [H2, H1]"
    by (simp add: add_mset_commute)
  from merge_trials_perm [OF this d12]
  have c: "map_of (merge_trials [H1, H2]) = map_of (merge_trials [H2, H1])" .
  have e1: "merge_trials [H1, []] = H1"
    using assms(1) by (rule merge_trials_empty_right)
  have e2: "merge_trials [[], H1] = H1"
    using assms(1) by (rule merge_trials_empty_left)
  from l r have a: "map_of (merge_trials [merge_trials [H1, H2], H3])
           = map_of (merge_trials [H1, merge_trials [H2, H3]])"
    by (rule trans [OF _ sym])
  from a l p c e1 e2 show ?thesis
    by (intro conjI)
qed

theorem merge_trials_order_independent_witness:
  "distinct (map fst [(1, (3::int, 0::int)), (2::int, (2, 0))])
   \<and> distinct (map fst [(1::int, (0::int, 3::int))])
   \<and> distinct (map fst [(4::int, (1::int, 0::int)), (1, (1, 1))])
   \<and> map_of (merge_trials [merge_trials [[(1, (3, 0)), (2, (2, 0))], [(1, (0, 3))]],
                            [(4, (1, 0)), (1, (1, 1))]])
       = map_of (merge_trials [[(1, (3, 0)), (2, (2, 0))],
                               merge_trials [[(1, (0, 3))], [(4, (1, 0)), (1, (1, 1))]]])
   \<and> map_of (merge_trials [[(4, (1, 0)), (1, (1, 1))], [(1, (0, 3))], [(1, (3, 0)), (2, (2, 0))]])
       = map_of (merge_trials [[(1, (3, 0)), (2, (2, 0))], [(1, (0, 3))], [(4, (1, 0)), (1, (1, 1))]])
   \<and> merge_trials [[(1, (3, 0)), (2, (2, 0))], []] = [(1, (3, 0)), (2, (2, 0))]"
proof -
  let ?A = "[(1, (3, 0)), (2, (2, 0))] :: histogram"
  let ?B = "[(1, (0, 3))] :: histogram"
  let ?C = "[(4, (1, 0)), (1, (1, 1))] :: histogram"
  have dA: "distinct (map fst ?A)" and dB: "distinct (map fst ?B)" and dC: "distinct (map fst ?C)"
    by simp_all
  note t = merge_trials_order_independent [OF dA dB dC]
  have m: "mset [?C, ?B, ?A] = mset [?A, ?B, ?C]"
    by (simp add: add_mset_commute)
  have assoc: "map_of (merge_trials [merge_trials [?A, ?B], ?C])
                 = map_of (merge_trials [?A, merge_trials [?B, ?C]])"
    using t by (rule conjunct1)
  have perm: "map_of (merge_trials [?C, ?B, ?A]) = map_of (merge_trials [?A, ?B, ?C])"
    using t [THEN conjunct2, THEN conjunct2, THEN conjunct1, THEN spec, THEN mp, OF m] .
  have ident: "merge_trials [?A, []] = ?A"
    using t [THEN conjunct2, THEN conjunct2, THEN conjunct2, THEN conjunct2] by (rule conjunct1)
  from dA dB dC assoc perm ident show ?thesis
    by (intro conjI)
qed

subsection \<open>Totals of a merge and of a run\<close>

lemma chain_at_member:
  "distinct (map fst h) \<Longrightarrow> (k, c) \<in> set h \<Longrightarrow> chain_at h k = c"
  by (simp add: chain_at_def map_of_is_SomeI)

lemma sum_list_keys:
  assumes "distinct (map fst h)"
  shows "sum_list (map ((\<lambda>k. f (chain_at h k)) \<circ> fst) h) = sum_list (map (\<lambda>(k, c). f c) h)"
proof -
  have "map ((\<lambda>k. f (chain_at h k)) \<circ> fst) h = map (\<lambda>(k, c). f c) h"
    using chain_at_member [OF assms] by (intro map_cong) auto
  then show ?thesis by (simp only:)
qed

lemma merge_key_sum:
  fixes f :: "chain \<Rightarrow> int"
  assumes add: "\<And>a b. f (fst a + fst b, snd a + snd b) = f a + f b"
    and d: "distinct (map fst d)" and k: "k \<in> fst ` set tr"
  shows "sum_list (map (\<lambda>(k, c). f c) (merge_key tr d k))
         = sum_list (map (\<lambda>(k, c). f c) d) + f (chain_at tr k)"
proof -
  obtain item where item: "map_of tr k = Some item"
    using k by (metis map_of_eq_None_iff not_Some_eq)
  show ?thesis
    using sum_list_update [OF d, of f k] add
    by (simp add: merge_key_def item chain_at_def split: option.splits)
qed

lemma foldl_merge_key_sum:
  fixes f :: "chain \<Rightarrow> int"
  assumes add: "\<And>a b. f (fst a + fst b, snd a + snd b) = f a + f b"
    and "distinct (map fst d)" and "set ks \<subseteq> fst ` set tr"
  shows "sum_list (map (\<lambda>(k, c). f c) (foldl (merge_key tr) d ks))
         = sum_list (map (\<lambda>(k, c). f c) d) + sum_list (map (\<lambda>k. f (chain_at tr k)) ks)"
  using assms(2,3)
proof (induction ks arbitrary: d)
  case Nil
  then show ?case by simp
next
  case (Cons x ks)
  have x: "x \<in> fst ` set tr" and ks: "set ks \<subseteq> fst ` set tr"
    using Cons.prems(2) by simp_all
  have d': "distinct (map fst (merge_key tr d x))"
    using Cons.prems(1) by (rule merge_key_distinct)
  show ?case
    using Cons.IH [OF d' ks] merge_key_sum [of f, OF add Cons.prems(1) x]
    by simp
qed

lemma merge_fold_sum:
  fixes f :: "chain \<Rightarrow> int"
  assumes add: "\<And>a b. f (fst a + fst b, snd a + snd b) = f a + f b"
    and "\<forall>h \<in> set hs. distinct (map fst h)" and "distinct (map fst d)"
  shows "sum_list (map (\<lambda>(k, c). f c) (foldl (\<lambda>d tr. foldl (merge_key tr) d (map fst tr)) d hs))
         = sum_list (map (\<lambda>(k, c). f c) d)
           + sum_list (map (\<lambda>h. sum_list (map (\<lambda>(k, c). f c) h)) hs)"
  using assms(2,3)
proof (induction hs arbitrary: d)
  case Nil
  then show ?case by simp
next
  case (Cons tr hs)
  have tr: "distinct (map fst tr)" and hs: "\<forall>h \<in> set hs. distinct (map fst h)"
    using Cons.prems(1) by simp_all
  have d': "distinct (map fst (foldl (merge_key tr) d (map fst tr)))"
    using Cons.prems(2) by (rule foldl_merge_key_distinct)
  have "sum_list (map (\<lambda>(k, c). f c) (foldl (merge_key tr) d (map fst tr)))
        = sum_list (map (\<lambda>(k, c). f c) d) + sum_list (map (\<lambda>(k, c). f c) tr)"
    using foldl_merge_key_sum [of f d "map fst tr" tr, OF add Cons.prems(2)]
    by (simp add: sum_list_keys [OF tr])
  then show ?case
    using Cons.IH [OF hs d'] by simp
qed

lemma merge_trials_total_flips:
  assumes "\<forall>h \<in> set hs. distinct (map fst h)"
  shows "total_flips (merge_trials hs) = sum_list (map total_flips hs)"
proof -
  have "sum_list (map (\<lambda>(k, c). fst c + snd c) (merge_trials hs))
        = sum_list (map (\<lambda>h. sum_list (map (\<lambda>(k, c). fst c + snd c) h)) hs)"
    unfolding merge_trials_def
    using merge_fold_sum [of "\<lambda>c. fst c + snd c" hs "[]", OF _ assms] by simp
  then show ?thesis
    by (simp add: total_flips_def [abs_def])
qed

lemma merge_trials_total_tails:
  assumes "\<forall>h \<in> set hs. distinct (map fst h)"
  shows "total_tails (merge_trials hs) = sum_list (map total_tails hs)"
proof -
  have "sum_list (map (\<lambda>(k, c). snd c) (merge_trials hs))
        = sum_list (map (\<lambda>h. sum_list (map (\<lambda>(k, c). snd c) h)) hs)"
    unfolding merge_trials_def
    using merge_fold_sum [of snd hs "[]", OF _ assms] by simp
  then show ?thesis
    by (simp add: total_tails_def [abs_def])
qed

lemma perform_trials_distinct: "distinct (map fst (fst (perform_trials n q rnd)))"
  by (simp add: perform_trials_def Let_def trials_loop_distinct)

lemma perform_trials_total_nat: "total_flips (fst (perform_trials n q rnd)) = int (nat n)"
  by (simp add: perform_trials_def Let_def trials_loop_total)

text \<open>
  Claim C4. For \<open>num_trials \<ge> 0\<close> and every sequence of draws the histogram
  returned by the trial runner has a total flip count (heads + tails over all
  keys) of exactly \<open>num_trials\<close>: 5 for 5 trials; 10 trials on 2 workers are
  split into 5 and 5 and the merge of the two histograms has a total of 10; for
  0 trials the histogram is empty.
\<close>

theorem perform_trials_total_flips:
  assumes "0 \<le> num_trials"
  shows "total_flips (fst (perform_trials num_trials q rnd)) = num_trials
       \<and> total_flips (fst (perform_trials 5 q rnd)) = 5
       \<and> yield_worker_batch_sizes 10 2 = Inr [5, 5]
       \<and> total_flips (merge_trials [fst (perform_trials 5 q rnd), fst (perform_trials 5 q' rnd')]) = 10
       \<and> fst (perform_trials 0 q rnd) = []"
proof -
  have a: "total_flips (fst (perform_trials num_trials q rnd)) = num_trials"
    using assms by (simp add: perform_trials_total_nat)
  have b: "total_flips (fst (perform_trials 5 q rnd)) = 5" for q rnd
    by (simp add: perform_trials_total_nat)
  have c: "yield_worker_batch_sizes 10 2 = Inr [5, 5]"
    by (simp add: yield_worker_batch_sizes_def Let_def upto.simps)
  have "\<forall>h \<in> set [fst (perform_trials 5 q rnd), fst (perform_trials 5 q' rnd')].
          distinct (map fst h)"
    by (simp add: perform_trials_distinct)
  then have d: "total_flips (merge_trials [fst (perform_trials 5 q rnd),
                   fst (perform_trials 5 q' rnd')]) = 10"
    by (simp only: merge_trials_total_flips) (simp add: b)
  have e: "fst (perform_trials 0 q rnd) = []"
    by (simp add: perform_trials_def trials_loop_def)
  from a b c d e show ?thesis
    by (intro conjI)
qed

theorem perform_trials_total_flips_witness:
  "(0::int) \<le> 7 \<and> total_flips (fst (perform_trials 7 None example_draws)) = 7
   \<and> total_flips [(1, (3, 0)), (2, (2, 0)), (3, (0, 2))] = 7"
  using perform_trials_total_flips [of 7 None example_draws]
  by (simp add: total_flips_def)

subsection \<open>Keys of a run\<close>

lemma streak_at_0: "streak_at rnd 0 = 1"
  by (simp add: streak_at_def)

lemma streak_at_Suc:
  "streak_at rnd (Suc i) = (if flip_coin (rnd i) = Heads then streak_at rnd i + 1 else 1)"
  by (simp add: streak_at_def)

lemma streak_at_pos: "1 \<le> streak_at rnd i"
  by (simp add: streak_at_def)

lemma max_streak_Suc:
  "max_streak_upto rnd (Suc i) = max (max_streak_upto rnd i) (streak_at rnd i)"
  by (simp add: max_streak_upto_def)

lemma max_streak_nonneg: "0 \<le> max_streak_upto rnd i"
  by (induction i) (simp_all add: max_streak_Suc max_streak_upto_def)

lemma streak_at_le_max: "streak_at rnd i \<le> max_streak_upto rnd i + 1"
proof (cases i)
  case 0
  then show ?thesis by (simp add: streak_at_0 max_streak_upto_def)
next
  case (Suc j)
  then show ?thesis
    using max_streak_nonneg [of rnd j]
    by (auto simp: streak_at_Suc max_streak_Suc)
qed

lemma streaks_contiguous:
  "streak_at rnd ` {0..<i} = {1..max_streak_upto rnd i}"
proof (induction i)
  case 0
  then show ?case by (simp add: max_streak_upto_def)
next
  case (Suc i)
  have "streak_at rnd ` {0..<Suc i} = insert (streak_at rnd i) {1..max_streak_upto rnd i}"
    using Suc by (simp add: atLeast0_lessThan_Suc)
  also have "\<dots> = {1..max (max_streak_upto rnd i) (streak_at rnd i)}"
    using streak_at_pos [of rnd i] streak_at_le_max [of rnd i] by auto
  finally show ?case
    by (simp only: max_streak_Suc)
qed

lemma trial_step_keys:
  "fst ` set (fst (trial_step (hc, c) flip)) = insert c (fst ` set hc)"
  by (simp add: trial_step_alt dom_update)

lemma trial_step_counter:
  "snd (trial_step (hc, c) flip) = (if flip = Heads then c + 1 else 1)"
  by (simp add: trial_step_alt)

lemma trials_loop_keys:
  "snd (trials_loop n rnd) = streak_at rnd (nat n)
   \<and> fst ` set (fst (trials_loop n rnd)) = streak_at rnd ` {0..<nat n}"
  by (rule trials_loop_induct
        [where P = "\<lambda>i s. snd s = streak_at rnd i \<and> fst ` set (fst s) = streak_at rnd ` {0..<i}"])
     (simp_all add: streak_at_0 streak_at_Suc trial_step_keys trial_step_counter
        atLeast0_lessThan_Suc)

lemma perform_trials_keys_streaks:
  "fst ` set (fst (perform_trials num_trials q rnd)) = streak_at rnd ` {0..<nat num_trials}"
  using trials_loop_keys [of num_trials rnd] by (simp add: perform_trials_def Let_def)

lemma perform_trials_keys_interval:
  "fst ` set (fst (perform_trials num_trials q rnd)) = {1..max_streak num_trials rnd}"
  by (simp only: perform_trials_keys_streaks max_streak_def streaks_contiguous)

text \<open>
  Claim C5. The keys of the histogram returned by the trial runner are
  contiguous: they are exactly the streak lengths at which a flip was made, and
  these are exactly the integers from 1 up to the largest of them, without gaps;
  no key occurs twice, and with no flip the histogram is empty. The streak
  length is the counter of the specification, which starts at 1.
\<close>

theorem perform_trials_keys_contiguous:
  "distinct (map fst (fst (perform_trials num_trials q rnd)))
   \<and> fst ` set (fst (perform_trials num_trials q rnd)) = streak_at rnd ` {0..<nat num_trials}
   \<and> fst ` set (fst (perform_trials num_trials q rnd)) = {1..max_streak num_trials rnd}
   \<and> fst (perform_trials 0 q rnd) = []"
proof -
  have c: "fst (perform_trials 0 q rnd) = []"
    by (simp add: perform_trials_def trials_loop_def)
  from perform_trials_distinct perform_trials_keys_streaks perform_trials_keys_interval c
  show ?thesis
    by (intro conjI)
qed

lemma max_streak_example: "max_streak 7 example_draws = 3"
  by code_simp

theorem perform_trials_keys_contiguous_witness:
  "fst ` set (fst (perform_trials 7 None example_draws)) = {1..3}
   \<and> map fst (fst (perform_trials 7 None example_draws)) = [1, 2, 3]"
  using perform_trials_keys_contiguous [of 7 None example_draws, THEN conjunct2, THEN conjunct2,
      THEN conjunct1]
  by (simp add: max_streak_example perform_trials_example)

subsection \<open>The pipeline\<close>

lemma trial_step_tails:
  assumes "distinct (map fst hc)"
  shows "total_tails (fst (trial_step (hc, c) flip))
         = total_tails hc + (if flip = Heads then 0 else 1)"
proof -
  have "total_tails (AList.update c v hc) = total_tails hc - snd (chain_at hc c) + snd v" for v
    using sum_list_update [OF assms, of snd c v]
    by (simp add: total_tails_def chain_at_def split: option.splits)
  then show ?thesis
    by (simp add: trial_step_alt)
qed

lemma trial_step_chain_at:
  "chain_at (fst (trial_step (hc, c) flip)) k =
     (if k = c
      then (if flip = Heads then (fst (chain_at hc c) + 1, snd (chain_at hc c))
            else (fst (chain_at hc c), snd (chain_at hc c) + 1))
      else chain_at hc k)"
  by (simp add: trial_step_alt chain_at_def [of "AList.update _ _ _"] update_conv')
     (simp add: chain_at_def)

lemma trial_step_key1:
  assumes "distinct (map fst hc)" and "1 \<le> c" and "i = 0 \<longrightarrow> c = 1"
    and "key1_count hc + (if c = 1 \<and> 0 < i then 1 else 0)
         = total_tails hc + (if 0 < (i::nat) then 1 else 0)"
  shows "key1_count (fst (trial_step (hc, c) flip))
           + (if snd (trial_step (hc, c) flip) = 1 then 1 else 0)
         = total_tails (fst (trial_step (hc, c) flip)) + 1"
  using assms(2-)
  by (cases "c = 1"; cases flip)
     (simp_all add: key1_count_def trial_step_chain_at trial_step_tails [OF assms(1)]
        trial_step_counter)

lemma trials_loop_key1:
  "distinct (map fst (fst (trials_loop n rnd)))
   \<and> 1 \<le> snd (trials_loop n rnd)
   \<and> (nat n = 0 \<longrightarrow> snd (trials_loop n rnd) = 1)
   \<and> key1_count (fst (trials_loop n rnd))
       + (if snd (trials_loop n rnd) = 1 \<and> 0 < nat n then 1 else 0)
     = total_tails (fst (trials_loop n rnd)) + (if 0 < nat n then 1 else 0)"
proof (rule trials_loop_induct
    [where P = "\<lambda>i s. distinct (map fst (fst s)) \<and> 1 \<le> snd s \<and> (i = 0 \<longrightarrow> snd s = 1)
       \<and> key1_count (fst s) + (if snd s = 1 \<and> 0 < i then 1 else 0)
           = total_tails (fst s) + (if 0 < i then 1 else 0)"])
  show "distinct (map fst (fst ([]::histogram, 1::int))) \<and> 1 \<le> snd ([]::histogram, 1::int)
        \<and> ((0::nat) = 0 \<longrightarrow> snd ([]::histogram, 1::int) = 1)
        \<and> key1_count (fst ([]::histogram, 1::int))
            + (if snd ([]::histogram, 1::int) = 1 \<and> 0 < (0::nat) then 1 else 0)
          = total_tails (fst ([]::histogram, 1::int)) + (if 0 < (0::nat) then 1 else 0)"
    by (simp add: key1_count_def chain_at_def total_tails_def)
next
  fix i :: nat and hc :: histogram and c :: int
  assume a: "distinct (map fst (fst (hc, c))) \<and> 1 \<le> snd (hc, c) \<and> (i = 0 \<longrightarrow> snd (hc, c) = 1)
       \<and> key1_count (fst (hc, c)) + (if snd (hc, c) = 1 \<and> 0 < i then 1 else 0)
           = total_tails (fst (hc, c)) + (if 0 < i then 1 else 0)"
  let ?s = "trial_step (hc, c) (flip_coin (rnd i))"
  from a have d: "distinct (map fst hc)" and c1: "1 \<le> c" and i0: "i = 0 \<longrightarrow> c = 1"
    and k: "key1_count hc + (if c = 1 \<and> 0 < i then 1 else 0)
            = total_tails hc + (if 0 < i then 1 else 0)"
    by simp_all
  have "key1_count (fst ?s) + (if snd ?s = 1 then 1 else 0) = total_tails (fst ?s) + 1"
    using d c1 i0 k by (rule trial_step_key1)
  moreover have "distinct (map fst (fst ?s))"
    using d by (rule trial_step_distinct)
  moreover have "1 \<le> snd ?s"
    using c1 by (simp add: trial_step_counter)
  ultimately show "distinct (map fst (fst ?s)) \<and> 1 \<le> snd ?s \<and> (Suc i = 0 \<longrightarrow> snd ?s = 1)
       \<and> key1_count (fst ?s) + (if snd ?s = 1 \<and> 0 < Suc i then 1 else 0)
           = total_tails (fst ?s) + (if 0 < Suc i then 1 else 0)"
    by simp
qed

lemma perform_trials_key1:
  "total_tails (fst (perform_trials n q rnd)) \<le> key1_count (fst (perform_trials n q rnd))
   \<and> key1_count (fst (perform_trials n q rnd)) \<le> total_tails (fst (perform_trials n q rnd)) + 1"
  using trials_loop_key1 [of n rnd]
  by (simp add: perform_trials_def Let_def split: if_splits)


lemma perform_trials_snd:
  "snd (perform_trials n (Some q) rnd) = Some (q @ [fst (perform_trials n None rnd)])"
  by (simp add: perform_trials_def Let_def)

lemma collect_queue_map:
  "collect_queue sizes rnds arrival
   = map (\<lambda>i. fst (perform_trials (sizes ! i) None (rnds i)))
       (filter (\<lambda>i. i < length sizes) arrival)"
proof -
  have "foldl (\<lambda>q i. case snd (perform_trials (sizes ! i) (Some q) (rnds i)) of
                        Some q' \<Rightarrow> q' | None \<Rightarrow> q) q0 is
        = q0 @ map (\<lambda>i. fst (perform_trials (sizes ! i) None (rnds i))) is" for q0 "is"
    by (induction "is" arbitrary: q0) (simp_all add: perform_trials_snd)
  then show ?thesis
    by (simp add: collect_queue_def)
qed

lemma collect_queue_member:
  assumes "h \<in> set (collect_queue sizes rnds arrival)"
  shows "\<exists>n rnd. h = fst (perform_trials n None rnd)"
  using assms by (auto simp: collect_queue_map)

lemma merge_trials_key1:
  assumes "\<forall>h \<in> set hs. distinct (map fst h)"
  shows "key1_count (merge_trials hs) = sum_list (map key1_count hs)"
proof -
  have "sum_list (map (\<lambda>h. fst (chain_at h 1)) hs) + sum_list (map (\<lambda>h. snd (chain_at h 1)) hs)
        = sum_list (map key1_count hs)"
    by (induction hs) (simp_all add: key1_count_def)
  then show ?thesis
    by (simp add: key1_count_def [of "merge_trials hs"] merge_trials_chain_at [OF assms]
          sum_chains_def)
qed

lemma sum_list_bounds:
  fixes f g :: "'a \<Rightarrow> int"
  assumes "\<forall>x \<in> set xs. g x \<le> f x \<and> f x \<le> g x + 1"
  shows "sum_list (map g xs) \<le> sum_list (map f xs)
       \<and> sum_list (map f xs) \<le> sum_list (map g xs) + int (length xs)"
  using assms by (induction xs) auto

lemma merged_runs_key1:
  assumes "\<forall>h \<in> set hs. \<exists>n rnd. h = fst (perform_trials n None rnd)"
  shows "total_tails (merge_trials hs) \<le> key1_count (merge_trials hs)
       \<and> key1_count (merge_trials hs) \<le> total_tails (merge_trials hs) + int (length hs)"
proof -
  have d: "\<forall>h \<in> set hs. distinct (map fst h)"
    using assms perform_trials_distinct by auto
  have b: "\<forall>h \<in> set hs. total_tails h \<le> key1_count h \<and> key1_count h \<le> total_tails h + 1"
    using assms perform_trials_key1 by auto
  show ?thesis
    unfolding merge_trials_key1 [OF d] merge_trials_total_tails [OF d]
    using b by (rule sum_list_bounds)
qed

lemma run_workers_Inr:
  assumes "fst (run_workers out_file num_trials num_workers rnds arrival w) = Inr merged"
  shows "\<exists>sizes. yield_worker_batch_sizes num_trials num_workers = Inr sizes
           \<and> merged = merge_trials (take (nat num_workers) (collect_queue sizes rnds arrival))"
  using assms
  by (auto simp: run_workers_def Let_def split: if_splits sum.splits)

lemma py_max_member: "py_max xs = Inr m \<Longrightarrow> m \<in> set xs"
proof -
  have "foldl max x ys \<in> set (x # ys)" for x :: int and ys
    by (induction ys arbitrary: x) (auto simp: max_def)
  then show "py_max xs = Inr m \<Longrightarrow> m \<in> set xs"
    by (auto simp: py_max_def split: list.splits)
qed

lemma main_Inr:
  assumes "fst (main out_file num_trials num_workers rnds arrival w) = Inr ()"
  shows "\<exists>merged m. fst (run_workers out_file num_trials num_workers rnds arrival w) = Inr merged
           \<and> py_max (map fst merged) = Inr m
           \<and> files (snd (main out_file num_trials num_workers rnds arrival w)) out_file
               = Some (RegularFile (csv_rows merged m))"
  using assms
  by (auto simp: main_def split: prod.splits sum.splits option.splits node.splits)

lemma merged_keys_positive:
  assumes "\<forall>h \<in> set hs. \<exists>n rnd. h = fst (perform_trials n None rnd)"
    and "k \<in> fst ` set (merge_trials hs)"
  shows "1 \<le> k \<and> 1 \<in> fst ` set (merge_trials hs)"
proof -
  have d: "\<forall>h \<in> set hs. distinct (map fst h)"
    using assms(1) perform_trials_distinct by auto
  from assms(2) obtain h where h: "h \<in> set hs" "k \<in> fst ` set h"
    unfolding merge_trials_keys [OF d] by blast
  then obtain n rnd where "h = fst (perform_trials n None rnd)"
    using assms(1) by blast
  then have hk: "fst ` set h = {1..max_streak n rnd}"
    by (simp only: perform_trials_keys_interval)
  then have "1 \<le> k" and "1 \<in> fst ` set h"
    using h(2) by auto
  then show ?thesis
    unfolding merge_trials_keys [OF d] using h(1) by blast
qed

lemma csv_rows_first:
  "1 \<le> m \<Longrightarrow> csv_rows merged m ! 1 = [Num 1, Num (fst (chain_at merged 1)), Num (snd (chain_at merged 1))]"
  by (simp add: csv_rows_def upto_rec1 [of 1 m] chain_at_def split: prod.splits)

text \<open>
  Claim C6, as amended. When \<open>main\<close> succeeds, the row \<open>chain_length = 1\<close>
  of the file holds the heads and tails counts of the merged histogram at key 1,
  and their sum (the flips made at streak length 1) is at least the total number
  of tails over all keys and exceeds it by at most the number of workers: every
  tail sends the counter back to 1, and each worker starts at 1.
\<close>

theorem pipeline_key1_row:
  assumes "fst (main out_file num_trials num_workers rnds arrival w) = Inr ()"
  shows "\<exists>merged m rows.
           fst (run_workers out_file num_trials num_workers rnds arrival w) = Inr merged
         \<and> files (snd (main out_file num_trials num_workers rnds arrival w)) out_file
             = Some (RegularFile rows)
         \<and> rows = csv_rows merged m
         \<and> rows ! 1 = [Num 1, Num (fst (chain_at merged 1)), Num (snd (chain_at merged 1))]
         \<and> total_tails merged \<le> fst (chain_at merged 1) + snd (chain_at merged 1)
         \<and> fst (chain_at merged 1) + snd (chain_at merged 1) \<le> total_tails merged + num_workers"
proof -
  from main_Inr [OF assms] obtain merged m where
    rw: "fst (run_workers out_file num_trials num_workers rnds arrival w) = Inr merged"
    and mx: "py_max (map fst merged) = Inr m"
    and fl: "files (snd (main out_file num_trials num_workers rnds arrival w)) out_file
               = Some (RegularFile (csv_rows merged m))"
    by blast
  from run_workers_Inr [OF rw] obtain sizes where
    mg: "merged = merge_trials (take (nat num_workers) (collect_queue sizes rnds arrival))"
    by blast
  let ?hs = "take (nat num_workers) (collect_queue sizes rnds arrival)"
  have runs: "\<forall>h \<in> set ?hs. \<exists>n rnd. h = fst (perform_trials n None rnd)"
    using collect_queue_member by (meson in_set_takeD)
  have "m \<in> fst ` set (merge_trials ?hs)"
    using py_max_member [OF mx] mg by simp
  then have m1: "1 \<le> m"
    using merged_keys_positive [OF runs] by blast
  have nonempty: "?hs \<noteq> []"
    using mx mg by (auto simp: py_max_def merge_trials_def)
  then have "0 < nat num_workers"
    by auto
  then have "int (length ?hs) \<le> num_workers"
    by simp
  then have bounds: "total_tails merged \<le> key1_count merged
      \<and> key1_count merged \<le> total_tails merged + num_workers"
    using merged_runs_key1 [OF runs] mg by auto
  have b1: "total_tails merged \<le> fst (chain_at merged 1) + snd (chain_at merged 1)"
    and b2: "fst (chain_at merged 1) + snd (chain_at merged 1) \<le> total_tails merged + num_workers"
    using bounds by (simp_all add: key1_count_def)
  have r1: "csv_rows merged m ! 1
            = [Num 1, Num (fst (chain_at merged 1)), Num (snd (chain_at merged 1))]"
    using m1 by (rule csv_rows_first)
  from rw fl r1 b1 b2 show ?thesis
    by blast
qed

theorem pipeline_key1_row_witness:
  "fst (main ''out'' 7 3 example_workers [2, 0, 1] empty_world) = Inr ()
   \<and> fst (run_workers ''out'' 7 3 example_workers [2, 0, 1] empty_world)
       = Inr [(1, (3, 0)), (2, (3, 0)), (3, (0, 1))]
   \<and> total_tails [(1, (3, 0)), (2, (3, 0)), (3, (0, 1))] \<le> 3 + 0
   \<and> (3::int) + 0 \<le> total_tails [(1, (3, 0)), (2, (3, 0)), (3, (0, 1))] + 3"
proof -
  have ok: "fst (main ''out'' 7 3 example_workers [2, 0, 1] empty_world) = Inr ()"
    by code_simp
  have rw: "fst (run_workers ''out'' 7 3 example_workers [2, 0, 1] empty_world)
       = Inr [(1, (3, 0)), (2, (3, 0)), (3, (0, 1))]"
    by code_simp
  show ?thesis
    using pipeline_key1_row [OF ok] ok rw by (auto simp: chain_at_def)
qed

text \<open>
  Claim C6 as stated fails: with one worker, one trial and a draw of heads the
  row \<open>chain_length = 1\<close> has heads = 1 while no tail was flipped at all.
\<close>

theorem pipeline_key1_heads_counterexample:
  "fst (main ''out'' 1 1 heads_workers [0] empty_world) = Inr ()
   \<and> fst (run_workers ''out'' 1 1 heads_workers [0] empty_world) = Inr [(1, (1, 0))]
   \<and> files (snd (main ''out'' 1 1 heads_workers [0] empty_world)) ''out''
       = Some (RegularFile [[Str ''chain_length'', Str ''heads'', Str ''tails''],
                            [Num 1, Num 1, Num 0]])
   \<and> fst (chain_at [(1, (1, 0))] 1) = 1
   \<and> total_tails [(1, (1, 0))] = 0
   \<and> fst (chain_at [(1, (1, 0))] 1) \<noteq> total_tails [(1, (1, 0))]"
proof -
  have a: "fst (main ''out'' 1 1 heads_workers [0] empty_world) = Inr ()"
    by code_simp
  have b: "fst (run_workers ''out'' 1 1 heads_workers [0] empty_world) = Inr [(1, (1, 0))]"
    by code_simp
  have c: "files (snd (main ''out'' 1 1 heads_workers [0] empty_world)) ''out''
       = Some (RegularFile [[Str ''chain_length'', Str ''heads'', Str ''tails''],
                            [Num 1, Num 1, Num 0]])"
    by code_simp
  have d: "fst (chain_at [(1, (1, 0))] 1) = 1" "total_tails [(1, (1, 0))] = 0"
    by (simp_all add: chain_at_def total_tails_def)
  from a b c d show ?thesis
    by simp
qed

lemma yield_error: "yield_worker_batch_sizes n k = Inl e \<Longrightarrow> e = ZeroDivisionError"
  by (auto simp: yield_worker_batch_sizes_def Let_def split: if_splits)

lemma py_max_error: "py_max xs = Inl e \<Longrightarrow> e = ValueError"
  by (auto simp: py_max_def split: list.splits)

lemma run_workers_exists:
  "isfile w out_file \<Longrightarrow>
   run_workers out_file num_trials num_workers rnds arrival w = (Inl (FileExists out_file), w)"
  by (simp add: run_workers_def)

lemma run_workers_not_exists:
  assumes "\<not> isfile w out_file"
  shows "fst (run_workers out_file num_trials num_workers rnds arrival w) \<noteq> Inl (FileExists p)"
  using assms yield_error [of num_trials num_workers]
  by (auto simp: run_workers_def Let_def split: sum.splits)

lemma main_exists:
  "isfile w out_file \<Longrightarrow>
   main out_file num_trials num_workers rnds arrival w = (Inl (FileExists out_file), w)"
  by (simp add: main_def run_workers_exists)

lemma main_not_exists:
  assumes "\<not> isfile w out_file"
  shows "fst (main out_file num_trials num_workers rnds arrival w) \<noteq> Inl (FileExists p)"
proof -
  let ?r = "run_workers out_file num_trials num_workers rnds arrival w"
  obtain res w' where r: "?r = (res, w')" by (cases ?r)
  have "res \<noteq> Inl (FileExists p)"
    using run_workers_not_exists [OF assms, of num_trials num_workers rnds arrival p] r by simp
  then show ?thesis
    using py_max_error
    by (auto simp: main_def r split: sum.splits option.splits node.splits)
qed

text \<open>
  Claim C7. \<open>main\<close> raises the "already exists" error exactly when the
  output path names an existing file, and then nothing else has happened: no
  worker was started, nothing was printed and no file was written or changed.
\<close>

theorem main_refuses_existing_file:
  "((\<exists>p. fst (main out_file num_trials num_workers rnds arrival w) = Inl (FileExists p))
      \<longleftrightarrow> isfile w out_file)
   \<and> (isfile w out_file \<longrightarrow>
        main out_file num_trials num_workers rnds arrival w = (Inl (FileExists out_file), w))"
  using main_exists [of w out_file num_trials num_workers rnds arrival]
    main_not_exists [of w out_file num_trials num_workers rnds arrival]
  by auto

theorem main_refuses_existing_file_witness:
  "isfile busy_world ''out''
   \<and> main ''out'' 7 3 example_workers [2, 0, 1] busy_world = (Inl (FileExists ''out''), busy_world)
   \<and> started busy_world = [] \<and> stdout busy_world = []"
proof -
  have f: "isfile busy_world ''out''"
    by (simp add: isfile_def busy_world_def)
  have "main ''out'' 7 3 example_workers [2, 0, 1] busy_world = (Inl (FileExists ''out''), busy_world)"
    using main_refuses_existing_file [of "''out''" 7 3 example_workers "[2, 0, 1]" busy_world] f
    by blast
  with f show ?thesis
    by (simp add: busy_world_def)
qed

text \<open>
  Claim C9 as stated fails: with both arguments omitted \<open>main\<close> does not run
  one million trials, nor as many workers as a host with 8 execution units has.
\<close>

theorem main_defaults_counterexample:
  "main_defaults None None = (1000, 1) \<and> main_defaults None None \<noteq> (1000000, 8)"
  by (simp add: main_defaults_def)

text \<open>
  Claim C9, as amended. With both arguments omitted \<open>main\<close> runs 1000 trials
  on 1 worker, the defaults of its signature. One million trials and
  \<open>cpu_count\<close> workers are what the script block passes to \<open>main\<close>
  explicitly.
\<close>

theorem main_defaults_spec:
  "main_defaults None None = (1000, 1)
   \<and> main_call out_file None None rnds arrival w = main out_file 1000 1 rnds arrival w
   \<and> script_entry cpu_count home rnds arrival w
       = main (path_join home ''probability_data.csv'') 1000000 cpu_count rnds arrival w"
  by (simp add: main_defaults_def main_call_def script_entry_def)

subsection \<open>The merger on the heap\<close>

lemma map_nth_update:
  assumes "distinct (map snd al)" and "map_of al k = Some dk"
    and "\<forall>l \<in> snd ` set al. l < length L"
  shows "map (\<lambda>(k, l). (k, L[dk := v] ! l)) al = AList.update k v (map (\<lambda>(k, l). (k, L ! l)) al)"
  using assms
proof (induction al)
  case Nil
  then show ?case by simp
next
  case (Cons p al)
  obtain k' l' where p: "p = (k', l')" by (cases p)
  show ?case
  proof (cases "k' = k")
    case True
    then have dk: "l' = dk"
      using Cons.prems(2) p by simp
    have "\<forall>x \<in> set al. snd x \<noteq> dk"
      using Cons.prems(1) p dk by auto
    then have "map (\<lambda>(k, l). (k, L[dk := v] ! l)) al = map (\<lambda>(k, l). (k, L ! l)) al"
      by (intro map_cong) auto
    then show ?thesis
      using True p dk Cons.prems(3) by simp
  next
    case False
    then have m: "map_of al k = Some dk"
      using Cons.prems(2) p by simp
    then have "(k, dk) \<in> set al"
      by (rule map_of_SomeD)
    then have "l' \<noteq> dk"
      using Cons.prems(1) p by force
    then show ?thesis
      using False p Cons.IH [OF _ m] Cons.prems(1,3) by simp
  qed
qed

lemma map_nth_append:
  assumes "\<forall>l \<in> snd ` set al. l < length L"
  shows "map (\<lambda>(k, l). (k, (L @ M) ! l)) al = map (\<lambda>(k, l). (k, L ! l)) al"
  using assms by (intro map_cong) (auto simp: nth_append)

lemma map_of_histogram:
  "map_of (histogram_of hp a) k = map_option (\<lambda>l. list_objs hp ! l) (map_of (dict_objs hp ! a) k)"
  by (simp add: histogram_of_def map_of_map)

lemma merge_inv_old_dict:
  "merge_inv hp h \<Longrightarrow> tr < length (dict_objs hp) \<Longrightarrow> dict_objs h ! tr = dict_objs hp ! tr"
  by (metis merge_inv_def nth_take)

lemma merge_inv_old_list:
  "merge_inv hp h \<Longrightarrow> l < length (list_objs hp) \<Longrightarrow> list_objs h ! l = list_objs hp ! l"
  by (metis merge_inv_def nth_take)

lemma merge_inv_old_histogram:
  assumes "merge_inv hp h" and "tr < length (dict_objs hp)"
    and "list_all (\<lambda>(k, l). l < length (list_objs hp)) (dict_objs hp ! tr)"
  shows "histogram_of h tr = histogram_of hp tr"
proof -
  have "map (\<lambda>(k, l). (k, list_objs h ! l)) (dict_objs hp ! tr)
        = map (\<lambda>(k, l). (k, list_objs hp ! l)) (dict_objs hp ! tr)"
    using assms(3) merge_inv_old_list [OF assms(1)]
    by (intro map_cong) (auto simp: list_all_iff)
  then show ?thesis
    by (simp add: histogram_of_def merge_inv_old_dict [OF assms(1,2)])
qed

lemma merge_key_heap_step:
  assumes inv: "merge_inv hp h" and tr: "tr < length (dict_objs hp)"
    and addrs: "list_all (\<lambda>(k, l). l < length (list_objs hp)) (dict_objs hp ! tr)"
  shows "merge_inv hp (merge_key_heap tr (length (dict_objs hp)) h k)
       \<and> histogram_of (merge_key_heap tr (length (dict_objs hp)) h k) (length (dict_objs hp))
           = merge_key (histogram_of hp tr) (histogram_of h (length (dict_objs hp))) k"
proof -
  let ?d = "length (dict_objs hp)"
  let ?D = "dict_objs h ! ?d"
  let ?L = "list_objs h"
  have trd: "dict_objs h ! tr = dict_objs hp ! tr"
    using inv tr by (rule merge_inv_old_dict)
  have len_d: "length (dict_objs h) = Suc ?d"
    and take_d: "take ?d (dict_objs h) = dict_objs hp"
    and len_l: "length (list_objs hp) \<le> length ?L"
    and take_l: "take (length (list_objs hp)) ?L = list_objs hp"
    and dk: "distinct (map fst ?D)" and da: "distinct (map snd ?D)"
    and rng: "\<forall>l \<in> snd ` set ?D. length (list_objs hp) \<le> l \<and> l < length ?L"
    using inv by (auto simp: merge_inv_def list_all_iff)
  have rngL: "\<forall>l \<in> snd ` set ?D. l < length ?L"
    using rng by blast
  have mtr: "map_of (histogram_of hp tr) k
             = map_option (\<lambda>l. list_objs hp ! l) (map_of (dict_objs hp ! tr) k)"
    by (rule map_of_histogram)
  have md: "map_of (histogram_of h ?d) k = map_option (\<lambda>l. ?L ! l) (map_of ?D k)"
    by (rule map_of_histogram)
  show ?thesis
  proof (cases "map_of (dict_objs hp ! tr) k")
    case None
    then show ?thesis
      using inv by (simp add: merge_key_heap_def trd merge_key_def mtr)
  next
    case (Some item)
    then have "(k, item) \<in> set (dict_objs hp ! tr)"
      by (rule map_of_SomeD)
    then have item: "item < length (list_objs hp)"
      using addrs by (auto simp: list_all_iff)
    then have itemv: "?L ! item = list_objs hp ! item"
      using inv by (simp add: merge_inv_old_list)
    show ?thesis
    proof (cases "map_of ?D k")
      case None
      let ?h' = "h\<lparr>list_objs := ?L @ [?L ! item],
                    dict_objs := (dict_objs h)[?d := AList.update k (length ?L) ?D]\<rparr>"
      have step: "merge_key_heap tr ?d h k = ?h'"
        by (simp add: merge_key_heap_def trd Some None)
      have fresh: "k \<notin> fst ` set ?D"
        using None by (simp add: map_of_eq_None_iff)
      have D': "dict_objs ?h' ! ?d = ?D @ [(k, length ?L)]"
        using len_d by (simp add: update_fresh [OF fresh])
      have "length ?L \<notin> snd ` set ?D"
        using rngL by blast
      then have i1: "merge_inv hp ?h'"
        unfolding merge_inv_def D'
        using len_d take_d len_l take_l dk da rng fresh
        by (auto simp: list_all_iff)
      have "histogram_of ?h' ?d = histogram_of h ?d @ [(k, ?L ! item)]"
        unfolding histogram_of_def D'
        using map_nth_append [OF rngL, of "[?L ! item]"] by simp
      moreover have "merge_key (histogram_of hp tr) (histogram_of h ?d) k
                     = histogram_of h ?d @ [(k, list_objs hp ! item)]"
      proof -
        have "k \<notin> fst ` set (histogram_of h ?d)"
          using None md by (simp add: map_of_eq_None_iff [symmetric] del: map_of_eq_None_iff)
        then show ?thesis
          using None by (simp add: merge_key_def mtr md Some update_fresh)
      qed
      ultimately show ?thesis
        using i1 step itemv by simp
    next
      case (Some dk')
      let ?v = "(fst (?L ! dk') + fst (?L ! item), snd (?L ! dk') + snd (?L ! item))"
      let ?h' = "h\<lparr>list_objs := ?L[dk' := ?v]\<rparr>"
      have "(k, dk') \<in> set ?D"
        using Some by (rule map_of_SomeD)
      then have dkr: "length (list_objs hp) \<le> dk'" "dk' < length ?L"
        using rng by force+
      then have ne: "item \<noteq> dk'"
        using item by simp
      have step: "merge_key_heap tr ?d h k = ?h'"
        using ne dkr
        by (simp add: merge_key_heap_def trd \<open>map_of (dict_objs hp ! tr) k = Some item\<close> Some
              Let_def)
      have i1: "merge_inv hp ?h'"
        unfolding merge_inv_def
        using len_d take_d len_l take_l dk da rng dkr
        by (auto simp: list_all_iff)
      have "histogram_of ?h' ?d = AList.update k ?v (histogram_of h ?d)"
        unfolding histogram_of_def
        using map_nth_update [OF da Some rngL, of ?v] by simp
      moreover have "merge_key (histogram_of hp tr) (histogram_of h ?d) k
                     = AList.update k ?v (histogram_of h ?d)"
        using Some itemv
        by (simp add: merge_key_def mtr md \<open>map_of (dict_objs hp ! tr) k = Some item\<close>)
      ultimately show ?thesis
        using i1 step by simp
    qed
  qed
qed

lemma merge_keys_heap_loop:
  assumes "merge_inv hp h" and "tr < length (dict_objs hp)"
    and "list_all (\<lambda>(k, l). l < length (list_objs hp)) (dict_objs hp ! tr)"
  shows "merge_inv hp (foldl (merge_key_heap tr (length (dict_objs hp))) h ks)
       \<and> histogram_of (foldl (merge_key_heap tr (length (dict_objs hp))) h ks)
             (length (dict_objs hp))
           = foldl (merge_key (histogram_of hp tr)) (histogram_of h (length (dict_objs hp))) ks"
  using assms(1)
proof (induction ks arbitrary: h)
  case Nil
  then show ?case by simp
next
  case (Cons k ks)
  note s = merge_key_heap_step [OF Cons.prems assms(2,3), of k]
  from Cons.IH [OF s [THEN conjunct1]] s [THEN conjunct2] show ?case
    by simp
qed

lemma merge_trials_heap_loop:
  assumes "merge_inv hp h" and "wf_inputs hp trs"
  shows "merge_inv hp
           (foldl (\<lambda>h tr. foldl (merge_key_heap tr (length (dict_objs hp))) h
                             (map fst (dict_objs h ! tr))) h trs)
       \<and> histogram_of
           (foldl (\<lambda>h tr. foldl (merge_key_heap tr (length (dict_objs hp))) h
                             (map fst (dict_objs h ! tr))) h trs)
           (length (dict_objs hp))
         = foldl (\<lambda>d tr. foldl (merge_key tr) d (map fst tr))
             (histogram_of h (length (dict_objs hp))) (map (histogram_of hp) trs)"
  using assms
proof (induction trs arbitrary: h)
  case Nil
  then show ?case by simp
next
  case (Cons tr trs)
  have tr: "tr < length (dict_objs hp)"
    and addrs: "list_all (\<lambda>(k, l). l < length (list_objs hp)) (dict_objs hp ! tr)"
    and rest: "wf_inputs hp trs"
    using Cons.prems(2) by (simp_all add: wf_inputs_def)
  have keys: "map fst (dict_objs h ! tr) = map fst (histogram_of hp tr)"
    by (simp add: merge_inv_old_dict [OF Cons.prems(1) tr] histogram_of_def
          case_prod_unfold comp_def)
  note l = merge_keys_heap_loop [OF Cons.prems(1) tr addrs, of "map fst (histogram_of hp tr)"]
  from Cons.IH [OF l [THEN conjunct1] rest] l [THEN conjunct2] keys show ?case
    by simp
qed

lemma merge_inv_start: "merge_inv hp (hp\<lparr>dict_objs := dict_objs hp @ [[]]\<rparr>)"
  by (simp add: merge_inv_def)

text \<open>
  Claim C8. \<open>merge_trials\<close> leaves its inputs as they were. The result is a
  dictionary allocated by the call; every dictionary and every list that
  existed before the call is unchanged after it, so each input holds the keys
  and the (heads, tails) values it had; the lists of the result are distinct
  objects allocated by the call, none of them a list of an input. Read off the
  heap, the result is the histogram that \<open>merge_trials\<close> computes on the
  values of the inputs.
\<close>

theorem merge_trials_heap_frame:
  assumes "wf_inputs hp trial_results"
  shows "snd (merge_trials_heap hp trial_results) = length (dict_objs hp)
       \<and> length (dict_objs (fst (merge_trials_heap hp trial_results))) = Suc (length (dict_objs hp))
       \<and> take (length (dict_objs hp)) (dict_objs (fst (merge_trials_heap hp trial_results)))
           = dict_objs hp
       \<and> take (length (list_objs hp)) (list_objs (fst (merge_trials_heap hp trial_results)))
           = list_objs hp
       \<and> (\<forall>tr \<in> set trial_results.
             histogram_of (fst (merge_trials_heap hp trial_results)) tr = histogram_of hp tr)
       \<and> (\<forall>(k, l) \<in> set (dict_objs (fst (merge_trials_heap hp trial_results))
                             ! snd (merge_trials_heap hp trial_results)).
             length (list_objs hp) \<le> l
             \<and> l < length (list_objs (fst (merge_trials_heap hp trial_results))))
       \<and> distinct (map snd (dict_objs (fst (merge_trials_heap hp trial_results))
                             ! snd (merge_trials_heap hp trial_results)))
       \<and> histogram_of (fst (merge_trials_heap hp trial_results))
             (snd (merge_trials_heap hp trial_results))
           = merge_trials (map (histogram_of hp) trial_results)"
proof -
  let ?h = "fst (merge_trials_heap hp trial_results)"
  note l = merge_trials_heap_loop [OF merge_inv_start assms]
  have d: "snd (merge_trials_heap hp trial_results) = length (dict_objs hp)"
    by (simp add: merge_trials_heap_def Let_def)
  have inv: "merge_inv hp ?h"
    using l [THEN conjunct1] by (simp add: merge_trials_heap_def Let_def)
  have ref: "histogram_of ?h (length (dict_objs hp))
             = merge_trials (map (histogram_of hp) trial_results)"
    using l [THEN conjunct2]
    by (simp add: merge_trials_heap_def Let_def merge_trials_def histogram_of_def)
  have old: "\<forall>tr \<in> set trial_results. histogram_of ?h tr = histogram_of hp tr"
    using assms merge_inv_old_histogram [OF inv]
    by (simp add: wf_inputs_def list_all_iff)
  show ?thesis
    unfolding d
    using inv old ref by (simp add: merge_inv_def list_all_iff)
qed

theorem merge_trials_heap_frame_witness:
  "wf_inputs example_heap [0, 1, 0]
   \<and> snd (merge_trials_heap example_heap [0, 1, 0]) = 2
   \<and> take 3 (list_objs (fst (merge_trials_heap example_heap [0, 1, 0]))) = list_objs example_heap
   \<and> histogram_of (fst (merge_trials_heap example_heap [0, 1, 0])) 2 = [(1, (6, 3)), (2, (4, 0))]"
proof -
  have wf: "wf_inputs example_heap [0, 1, 0]"
    by code_simp
  have a: "snd (merge_trials_heap example_heap [0, 1, 0]) = 2"
    by code_simp
  have len: "length (list_objs example_heap) = 3"
    by (simp add: example_heap_def)
  have b: "take 3 (list_objs (fst (merge_trials_heap example_heap [0, 1, 0])))
           = list_objs example_heap"
    using merge_trials_heap_frame [OF wf, THEN conjunct2, THEN conjunct2, THEN conjunct2,
        THEN conjunct1]
    by (simp only: len)
  have c: "histogram_of (fst (merge_trials_heap example_heap [0, 1, 0])) 2
           = [(1, (6, 3)), (2, (4, 0))]"
    by code_simp
  from wf a b c show ?thesis
    by (intro conjI)
qed

end
